theory Spec2Isabelle
  imports Main
begin

section \<open>JavaScript values\<close>

text \<open>
  The builder is TypeScript; the values it passes around are JavaScript values.
  A number is a double.  No function of the builder does arithmetic on one: it tests
  a number for truth and for finiteness and converts it to a string.  A safe integer,
  of magnitude at most 9007199254740991, is \<open>JInt\<close> of that integer, the zero of
  \<open>JInt\<close> being the positive one; negative zero is \<open>JNegZero\<close>; any other finite
  double is \<open>JDouble\<close> of the text that \<^verbatim>\<open>Number.prototype.toString\<close> writes for it (as
  \<^verbatim>\<open>0.5\<close>, \<^verbatim>\<open>18446744073709552000\<close>, \<^verbatim>\<open>1e+21\<close>), which names the double; the others
  are the three non-finite doubles.  A string is a list of 8-bit characters.  A
  function value is represented by its source text, which is all the builder can
  observe of a function it never calls.  An object is the list of its own enumerable
  properties in enumeration order.
\<close>

datatype jsnum = JInt int | JNegZero | JDouble string | JNaN | JPosInf | JNegInf

datatype jsval =
    JUndefined
  | JNull
  | JBool bool
  | JNum jsnum
  | JStr string
  | JFunction string
  | JArr "jsval list"
  | JObj "(string \<times> jsval) list"

datatype error = TypeError | RangeError

text \<open>The \<^verbatim>\<open>typeof\<close> operator.\<close>

fun typeof :: "jsval \<Rightarrow> string" where
  "typeof JUndefined = ''undefined''"
| "typeof JNull = ''object''"
| "typeof (JBool b) = ''boolean''"
| "typeof (JNum n) = ''number''"
| "typeof (JStr s) = ''string''"
| "typeof (JFunction src) = ''function''"
| "typeof (JArr xs) = ''object''"
| "typeof (JObj kvs) = ''object''"

text \<open>Truthiness, as \<^verbatim>\<open>if (x)\<close>, \<^verbatim>\<open>x || y\<close> and \<^verbatim>\<open>x ? a : b\<close> read a value.\<close>

fun truthy :: "jsval \<Rightarrow> bool" where
  "truthy JUndefined = False"
| "truthy JNull = False"
| "truthy (JBool b) = b"
| "truthy (JNum (JInt i)) = (i \<noteq> 0)"
| "truthy (JNum JNegZero) = False"
| "truthy (JNum (JDouble t)) = True"
| "truthy (JNum JNaN) = False"
| "truthy (JNum JPosInf) = True"
| "truthy (JNum JNegInf) = True"
| "truthy (JStr s) = (s \<noteq> [])"
| "truthy (JFunction src) = True"
| "truthy (JArr xs) = True"
| "truthy (JObj kvs) = True"

text \<open>
  Decimal digits of a natural number, and \<^verbatim>\<open>Number.prototype.toString\<close>: the decimal
  digits of a safe integer, \<^verbatim>\<open>0\<close> for negative zero, and the text of another finite
  double.
\<close>

fun digit_char :: "nat \<Rightarrow> char" where
  "digit_char n = char_of (48 + n)"

fun digits :: "nat \<Rightarrow> string" where
  "digits n = (if n < 10 then [digit_char n] else digits (n div 10) @ [digit_char (n mod 10)])"

declare digits.simps [simp del]

fun num_toString :: "jsnum \<Rightarrow> string" where
  "num_toString (JInt i) = (if i < 0 then CHR ''-'' # digits (nat (- i)) else digits (nat i))"
| "num_toString JNegZero = ''0''"
| "num_toString (JDouble t) = t"
| "num_toString JNaN = ''NaN''"
| "num_toString JPosInf = ''Infinity''"
| "num_toString JNegInf = ''-Infinity''"

text \<open>\<^verbatim>\<open>Array.prototype.join\<close> on strings.\<close>

fun join :: "string \<Rightarrow> string list \<Rightarrow> string" where
  "join sep [] = []"
| "join sep [x] = x"
| "join sep (x # y # ys) = x @ sep @ join sep (y # ys)"

text \<open>
  The conversion to a string that a template literal \<^verbatim>\<open>`${x}`\<close> applies: an array
  joins its elements with commas (\<^verbatim>\<open>null\<close> and \<^verbatim>\<open>undefined\<close> elements as the
  empty string), a plain object is \<^verbatim>\<open>[object Object]\<close>.
\<close>

fun to_string :: "jsval \<Rightarrow> string" where
  "to_string JUndefined = ''undefined''"
| "to_string JNull = ''null''"
| "to_string (JBool b) = (if b then ''true'' else ''false'')"
| "to_string (JNum n) = num_toString n"
| "to_string (JStr s) = s"
| "to_string (JFunction src) = src"
| "to_string (JArr xs) =
     join '','' (map (\<lambda>x. if x = JUndefined \<or> x = JNull then [] else to_string x) xs)"
| "to_string (JObj kvs) = ''[object Object]''"

text \<open>\<^verbatim>\<open>isFinite\<close>, which the builder applies to a number or to \<^verbatim>\<open>undefined\<close> (\<open>None\<close>).\<close>

fun isFinite :: "jsnum option \<Rightarrow> bool" where
  "isFinite (Some (JInt i)) = True"
| "isFinite (Some JNegZero) = True"
| "isFinite (Some (JDouble t)) = True"
| "isFinite _ = False"

section \<open>Validation rules\<close>

text \<open>
  Modelled from the spec: the rule types \<^verbatim>\<open>PrimitiveRule\<close>, \<^verbatim>\<open>ValidationRule\<close> and
  \<^verbatim>\<open>ValidationSchema\<close> are declared in the package \<^verbatim>\<open>@evojs/validator\<close>, which the
  builder imports.  A rule node is a tagged variant with the kinds string, number,
  boolean, object and array, each with an optional default (\<open>JUndefined\<close> when
  absent, \<open>JFunction\<close> when it is a function), an optional list of enumerated values
  for strings and numbers, the integer flag for numbers, \<^verbatim>\<open>schema\<close> and \<^verbatim>\<open>nested\<close> for
  objects, and \<^verbatim>\<open>schema\<close> (a list of rules, one per index), \<^verbatim>\<open>nested\<close> and \<^verbatim>\<open>length\<close>
  (an integer) for arrays.  \<open>OtherRule\<close> is a node whose \<^verbatim>\<open>type\<close> is absent
  (\<open>None\<close>) or given, with no type-specific field.  A rule position holds one node
  or a list of variants.
\<close>

datatype PrimitiveRule =
    StringRule jsval "string list option"
  | NumberRule jsval "jsnum list option" "bool option"
  | BooleanRule jsval
  | ObjectRule jsval "(string \<times> ValidationRule) list option" "ValidationRule option"
  | ArrayRule jsval "ValidationRule list option" "ValidationRule option" "int option"
  | OtherRule "string option" jsval
and ValidationRule =
    Single PrimitiveRule
  | Variants "PrimitiveRule list"

type_synonym ValidationSchema = "(string \<times> ValidationRule) list"

fun rule_type :: "PrimitiveRule \<Rightarrow> string option" where
  "rule_type (StringRule d vs) = Some ''string''"
| "rule_type (NumberRule d vs i) = Some ''number''"
| "rule_type (BooleanRule d) = Some ''boolean''"
| "rule_type (ObjectRule d s n) = Some ''object''"
| "rule_type (ArrayRule d s n l) = Some ''array''"
| "rule_type (OtherRule t d) = t"

fun rule_default :: "PrimitiveRule \<Rightarrow> jsval" where
  "rule_default (StringRule d vs) = d"
| "rule_default (NumberRule d vs i) = d"
| "rule_default (BooleanRule d) = d"
| "rule_default (ObjectRule d s n) = d"
| "rule_default (ArrayRule d s n l) = d"
| "rule_default (OtherRule t d) = d"

text \<open>
  \<^verbatim>\<open>Array.isArray(rule) ? rule[0] : rule\<close>: the representative of a rule position.
  Index 0 of an empty array is \<^verbatim>\<open>undefined\<close> (\<open>None\<close>).
\<close>

fun representative :: "ValidationRule \<Rightarrow> PrimitiveRule option" where
  "representative (Single r) = Some r"
| "representative (Variants []) = None"
| "representative (Variants (r # rs)) = Some r"

text \<open>
  \<^verbatim>\<open>typeof d !== 'undefined' && typeof d !== 'function'\<close>: the test both compilers
  apply to a rule's default.
\<close>

definition usable_default :: "jsval \<Rightarrow> bool" where
  "usable_default d = (typeof d \<noteq> ''undefined'' \<and> typeof d \<noteq> ''function'')"

text \<open>
  The rule node as the JavaScript object it is: its defined properties.  This is what
  the description functions inspect and what \<^verbatim>\<open>parseRuleToJsonData\<close> pushes when it
  pushes a rule node.
\<close>

definition defined_props :: "(string \<times> jsval) list \<Rightarrow> (string \<times> jsval) list" where
  "defined_props kvs = filter (\<lambda>kv. snd kv \<noteq> JUndefined) kvs"

fun opt_js :: "jsval option \<Rightarrow> jsval" where
  "opt_js None = JUndefined"
| "opt_js (Some v) = v"

fun rule_js :: "PrimitiveRule \<Rightarrow> jsval"
  and vrule_js :: "ValidationRule \<Rightarrow> jsval"
  and schema_js :: "(string \<times> ValidationRule) list \<Rightarrow> (string \<times> jsval) list"
  and rules_js :: "ValidationRule list \<Rightarrow> jsval list"
  and variants_js :: "PrimitiveRule list \<Rightarrow> jsval list"
where
  "rule_js (StringRule d vs) =
     JObj (defined_props [(''type'', JStr ''string''), (''default'', d),
       (''values'', opt_js (map_option (\<lambda>xs. JArr (map JStr xs)) vs))])"
| "rule_js (NumberRule d vs i) =
     JObj (defined_props [(''type'', JStr ''number''), (''default'', d),
       (''values'', opt_js (map_option (\<lambda>xs. JArr (map JNum xs)) vs)),
       (''integer'', opt_js (map_option JBool i))])"
| "rule_js (BooleanRule d) =
     JObj (defined_props [(''type'', JStr ''boolean''), (''default'', d)])"
| "rule_js (ObjectRule d s n) =
     JObj (defined_props [(''type'', JStr ''object''), (''default'', d),
       (''schema'', (case s of None \<Rightarrow> JUndefined | Some kvs \<Rightarrow> JObj (schema_js kvs))),
       (''nested'', (case n of None \<Rightarrow> JUndefined | Some r \<Rightarrow> vrule_js r))])"
| "rule_js (ArrayRule d s n l) =
     JObj (defined_props [(''type'', JStr ''array''), (''default'', d),
       (''schema'', (case s of None \<Rightarrow> JUndefined | Some rs \<Rightarrow> JArr (rules_js rs))),
       (''nested'', (case n of None \<Rightarrow> JUndefined | Some r \<Rightarrow> vrule_js r)),
       (''length'', opt_js (map_option (\<lambda>k. JNum (JInt k)) l))])"
| "rule_js (OtherRule t d) =
     JObj (defined_props [(''type'', opt_js (map_option JStr t)), (''default'', d)])"
| "vrule_js (Single r) = rule_js r"
| "vrule_js (Variants rs) = JArr (variants_js rs)"
| "schema_js [] = []"
| "schema_js (kv # kvs) = (fst kv, vrule_js (snd kv)) # schema_js kvs"
| "rules_js [] = []"
| "rules_js (r # rs) = vrule_js r # rules_js rs"
| "variants_js [] = []"
| "variants_js (r # rs) = rule_js r # variants_js rs"

section \<open>collection-schema.ts: the rule compiler\<close>

text \<open>
  \<^verbatim>\<open>parseRuleToJsonData\<close>.  Reading \<^verbatim>\<open>.default\<close> of \<^verbatim>\<open>undefined\<close>, the
  representative of an empty list of variants, raises a TypeError.  The object case
  folds over \<^verbatim>\<open>Object.entries(schema)\<close>; the array case with a schema \<open>a\<close> runs
  \<open>i\<close> from 0 to \<open>l\<close>, where \<open>l\<close> is \<^verbatim>\<open>length\<close> when \<^verbatim>\<open>nested\<close> is given and
  \<^verbatim>\<open>length > a.length\<close>, and \<^verbatim>\<open>a.length\<close> otherwise: since \<open>l\<close> is never below
  \<^verbatim>\<open>a.length\<close>, the loop compiles every \<open>a[i]\<close> in order (\<open>parseArraySchema\<close>) and
  then pushes the \<^verbatim>\<open>nested\<close> node itself for the indices from \<^verbatim>\<open>a.length\<close> to \<open>l\<close>.
  Without a schema, \<^verbatim>\<open>nested\<close> is compiled once and pushed \<^verbatim>\<open>length || 1\<close> times.
\<close>

fun parseRuleToJsonData :: "ValidationRule \<Rightarrow> error + jsval"
  and parsePrimitiveRule :: "PrimitiveRule \<Rightarrow> error + jsval"
  and parseObjectSchema :: "(string \<times> ValidationRule) list \<Rightarrow> error + (string \<times> jsval) list"
  and parseArraySchema :: "ValidationRule list \<Rightarrow> error + jsval list"
where
  "parseRuleToJsonData (Single r) = parsePrimitiveRule r"
| "parseRuleToJsonData (Variants []) = Inl TypeError"
| "parseRuleToJsonData (Variants (r # rs)) = parsePrimitiveRule r"
| "parsePrimitiveRule (StringRule d vs) =
     (if usable_default d then Inr d
      else Inr (case vs of
                  None \<Rightarrow> JStr []
                | Some [] \<Rightarrow> JStr []
                | Some (v # _) \<Rightarrow> if truthy (JStr v) then JStr v else JStr []))"
| "parsePrimitiveRule (NumberRule d vs i) =
     (if usable_default d then Inr d
      else (let v = (case vs of None \<Rightarrow> None | Some [] \<Rightarrow> None | Some (x # _) \<Rightarrow> Some x)
            in Inr (if isFinite v then JNum (the v) else JNum (JInt 0))))"
| "parsePrimitiveRule (BooleanRule d) =
     (if usable_default d then Inr d else Inr (JBool False))"
| "parsePrimitiveRule (ObjectRule d s n) =
     (if usable_default d then Inr d
      else (case s of
              None \<Rightarrow> Inr (JObj [])
            | Some kvs \<Rightarrow>
                (case parseObjectSchema kvs of Inl e \<Rightarrow> Inl e | Inr out \<Rightarrow> Inr (JObj out))))"
| "parsePrimitiveRule (ArrayRule d s n l) =
     (if usable_default d then Inr d
      else (case s of
              Some a \<Rightarrow>
                (let lim = (case (n, l) of
                              (Some nested, Some len) \<Rightarrow>
                                if len > int (length a) then nat len else length a
                            | _ \<Rightarrow> length a)
                 in case parseArraySchema a of
                      Inl e \<Rightarrow> Inl e
                    | Inr out \<Rightarrow>
                        Inr (JArr (out @ replicate (lim - length a)
                                           (opt_js (map_option vrule_js n)))))
            | None \<Rightarrow>
                (case n of
                   Some nested \<Rightarrow>
                     (case parseRuleToJsonData nested of
                        Inl e \<Rightarrow> Inl e
                      | Inr elem \<Rightarrow>
                          (let lim = (case l of None \<Rightarrow> 1 | Some k \<Rightarrow> if k = 0 then 1 else k)
                           in Inr (JArr (replicate (nat lim) elem))))
                 | None \<Rightarrow> Inr (JArr []))))"
| "parsePrimitiveRule (OtherRule t d) =
     (if usable_default d then Inr d
      else if t = Some ''string'' then Inr (JStr [])
      else if t = Some ''number'' then Inr (JNum (JInt 0))
      else if t = Some ''boolean'' then Inr (JBool False)
      else if t = Some ''object'' then Inr (JObj [])
      else if t = Some ''array'' then Inr (JArr [])
      else Inr JNull)"
| "parseObjectSchema [] = Inr []"
| "parseObjectSchema (kv # kvs) =
     (case parseRuleToJsonData (snd kv) of
        Inl e \<Rightarrow> Inl e
      | Inr v \<Rightarrow>
          (case parseObjectSchema kvs of
             Inl e \<Rightarrow> Inl e
           | Inr out \<Rightarrow> Inr ((fst kv, v) # out)))"
| "parseArraySchema [] = Inr []"
| "parseArraySchema (r # rs) =
     (case parseRuleToJsonData r of
        Inl e \<Rightarrow> Inl e
      | Inr v \<Rightarrow>
          (case parseArraySchema rs of
             Inl e \<Rightarrow> Inl e
           | Inr out \<Rightarrow> Inr (v # out)))"

section \<open>Descriptions\<close>

abbreviation newline :: char where "newline \<equiv> CHR 0x0A"
abbreviation tab :: char where "tab \<equiv> CHR 0x09"
abbreviation dquote :: char where "dquote \<equiv> CHR 0x22"

text \<open>
  \<^verbatim>\<open>keyLength\<close> (and the method \<^verbatim>\<open>_keyLength\<close>, the same code): the number of own
  enumerable properties whose value is not \<^verbatim>\<open>undefined\<close>.  A \<^verbatim>\<open>for ... in\<close> loop over
  an array or a string runs over its indices, and over any other primitive over nothing.
\<close>

fun keyLength :: "jsval \<Rightarrow> nat" where
  "keyLength (JObj kvs) = length (defined_props kvs)"
| "keyLength (JArr xs) = length (filter (\<lambda>x. x \<noteq> JUndefined) xs)"
| "keyLength (JStr s) = length s"
| "keyLength _ = 0"

text \<open>The spread \<^verbatim>\<open>{ ...object }\<close>: the own enumerable properties as an object.\<close>

fun spread :: "jsval \<Rightarrow> (string \<times> jsval) list" where
  "spread (JObj kvs) = kvs"
| "spread (JArr xs) = zip (map digits [0..<length xs]) xs"
| "spread (JStr s) = zip (map digits [0..<length s]) (map (\<lambda>c. JStr [c]) s)"
| "spread _ = []"

text \<open>\<^verbatim>\<open>out.replace(/\n+ */g, ' ')\<close>: every run of newlines and the spaces after it becomes one space.\<close>

function collapse_linebreaks :: "string \<Rightarrow> string" where
  "collapse_linebreaks [] = []"
| "collapse_linebreaks (c # cs) =
     (if c = newline
      then CHR '' '' # collapse_linebreaks
             (dropWhile (\<lambda>d. d = CHR '' '') (dropWhile (\<lambda>d. d = newline) cs))
      else c # collapse_linebreaks cs)"
  by pat_completeness auto
termination
proof (relation "measure length")
  show "wf (measure length)" by simp
next
  fix c :: char and cs :: string
  have "length (dropWhile (\<lambda>d. d = CHR '' '') (dropWhile (\<lambda>d. d = newline) cs))
          \<le> length (dropWhile (\<lambda>d. d = newline) cs)"
    by (rule length_dropWhile_le)
  also have "\<dots> \<le> length cs" by (rule length_dropWhile_le)
  finally show "(dropWhile (\<lambda>d. d = CHR '' '') (dropWhile (\<lambda>d. d = newline) cs), c # cs)
                  \<in> measure length"
    by simp
next
  fix c :: char and cs :: string
  show "(cs, c # cs) \<in> measure length" by simp
qed

text \<open>
  \<^verbatim>\<open>String.prototype.trim\<close> on 8-bit characters: tab, line feed, vertical tab, form
  feed, carriage return and space are white space.
\<close>

definition is_space :: "char \<Rightarrow> bool" where
  "is_space c = (c = tab \<or> c = newline \<or> c = CHR 0x0B \<or> c = CHR 0x0C \<or> c = CHR 0x0D \<or> c = CHR '' '')"

definition trim :: "string \<Rightarrow> string" where
  "trim s = rev (dropWhile is_space (rev (dropWhile is_space s)))"

text \<open>
  \<^verbatim>\<open>inspect\<close> of collection-schema.ts and the method \<^verbatim>\<open>_inspect\<close> of index.ts
  (\<open>builder_inspect\<close>).  Node's \<^verbatim>\<open>util.inspect\<close> is the parameter \<open>U\<close>.
\<close>

definition inspect :: "(jsval \<Rightarrow> string) \<Rightarrow> jsval \<Rightarrow> bool \<Rightarrow> string option" where
  "inspect U object linebreaks =
     (if keyLength object = 0 then None
      else (let out = U (JObj (defined_props (spread object)))
            in if linebreaks then Some out else Some (collapse_linebreaks out)))"

definition builder_inspect :: "(jsval \<Rightarrow> string) \<Rightarrow> jsval \<Rightarrow> string option" where
  "builder_inspect U object =
     (if keyLength object = 0 then None
      else Some (trim (collapse_linebreaks (U (JObj (defined_props (spread object)))))))"

fun rule_nested :: "PrimitiveRule \<Rightarrow> ValidationRule option" where
  "rule_nested (ObjectRule d s n) = n"
| "rule_nested (ArrayRule d s n l) = n"
| "rule_nested _ = None"

text \<open>
  \<^verbatim>\<open>d.nested && !Array.isArray(d.nested) && d.nested.type !== 'object' &&
  d.nested.type !== 'array'\<close>
\<close>

fun primitive_nested :: "ValidationRule option \<Rightarrow> bool" where
  "primitive_nested (Some (Single r)) =
     (rule_type r \<noteq> Some ''object'' \<and> rule_type r \<noteq> Some ''array'')"
| "primitive_nested _ = False"

text \<open>\<^verbatim>\<open>const { nested, schema, ...croppedData } = d\<close>\<close>

fun cropped :: "jsval \<Rightarrow> jsval" where
  "cropped (JObj kvs) = JObj (filter (\<lambda>kv. fst kv \<noteq> ''nested'' \<and> fst kv \<noteq> ''schema'') kvs)"
| "cropped v = v"

text \<open>The method \<^verbatim>\<open>_parseDescription\<close>; \<open>describe_variant\<close> is the function it maps over a list of variants.\<close>

definition describe_variant :: "(jsval \<Rightarrow> string) \<Rightarrow> PrimitiveRule \<Rightarrow> string option" where
  "describe_variant U d =
     (if rule_type d \<noteq> Some ''object'' \<and> rule_type d \<noteq> Some ''array'' then None
      else if primitive_nested (rule_nested d) then builder_inspect U (rule_js d)
      else builder_inspect U (cropped (rule_js d)))"

fun parseDescription :: "(jsval \<Rightarrow> string) \<Rightarrow> ValidationRule \<Rightarrow> string option" where
  "parseDescription U (Variants ds) =
     (let rules = filter (\<lambda>s. s \<noteq> []) (List.map_filter (describe_variant U) ds)
      in if rules \<noteq> [] then builder_inspect U (JArr (map JStr rules)) else None)"
| "parseDescription U (Single d) =
     (if (rule_type d \<noteq> Some ''object'' \<and> rule_type d \<noteq> Some ''array'')
         \<or> primitive_nested (rule_nested d)
      then builder_inspect U (rule_js d)
      else builder_inspect U (cropped (rule_js d)))"

section \<open>index.ts: the annotated compiler\<close>

text \<open>
  The method \<^verbatim>\<open>_parseRuleToJsonc\<close>.  Its result is the two-element array
  \<^verbatim>\<open>[value, description]\<close>.  \<^verbatim>\<open>Array(n)\<close> raises a RangeError unless \<open>n\<close> is an
  integer from 0 to 4294967295.
\<close>

definition array_ctor :: "int \<Rightarrow> error + nat" where
  "array_ctor n = (if n < 0 \<or> n \<ge> 4294967296 then Inl RangeError else Inr (nat n))"

fun parseRuleToJsonc :: "(jsval \<Rightarrow> string) \<Rightarrow> ValidationRule \<Rightarrow> error + jsval"
  and jsonc_value :: "(jsval \<Rightarrow> string) \<Rightarrow> PrimitiveRule \<Rightarrow> error + jsval"
  and jsonc_schema :: "(jsval \<Rightarrow> string) \<Rightarrow> (string \<times> ValidationRule) list \<Rightarrow> error + (string \<times> jsval) list"
where
  "parseRuleToJsonc U (Single r) =
     (case jsonc_value U r of
        Inl e \<Rightarrow> Inl e
      | Inr v \<Rightarrow> Inr (JArr [v, opt_js (map_option JStr (parseDescription U (Single r)))]))"
| "parseRuleToJsonc U (Variants []) =
     Inr (JArr [JNull, opt_js (map_option JStr (parseDescription U (Variants [])))])"
| "parseRuleToJsonc U (Variants (r # rs)) =
     (case jsonc_value U r of
        Inl e \<Rightarrow> Inl e
      | Inr v \<Rightarrow> Inr (JArr [v, opt_js (map_option JStr (parseDescription U (Variants (r # rs))))]))"
| "jsonc_value U (BooleanRule d) =
     (if usable_default d then Inr d else Inr (JBool False))"
| "jsonc_value U (StringRule d vs) =
     (if usable_default d then Inr d
      else Inr (case vs of
                  None \<Rightarrow> JStr []
                | Some [] \<Rightarrow> JStr []
                | Some (v # _) \<Rightarrow> if truthy (JStr v) then JStr v else JStr []))"
| "jsonc_value U (NumberRule d vs i) =
     (if usable_default d then Inr d
      else (let v = (case vs of None \<Rightarrow> None | Some [] \<Rightarrow> None | Some (x # _) \<Rightarrow> Some x)
            in Inr (if isFinite v then JNum (the v) else JNum (JInt 0))))"
| "jsonc_value U (ArrayRule d s n l) =
     (if usable_default d then Inr d
      else (case n of
              None \<Rightarrow> Inr (JArr [])
            | Some nested \<Rightarrow>
                if primitive_nested (Some nested) \<or> (case nested of Variants _ \<Rightarrow> True | Single _ \<Rightarrow> False)
                then (case array_ctor (case l of None \<Rightarrow> 1 | Some k \<Rightarrow> if k = 0 then 1 else k) of
                        Inl e \<Rightarrow> Inl e
                      | Inr len \<Rightarrow>
                          (case parseRuleToJsonc U nested of
                             Inl e \<Rightarrow> Inl e
                           | Inr elem \<Rightarrow> Inr (JArr (replicate len elem))))
                else Inr (JArr [])))"
| "jsonc_value U (ObjectRule d s n) =
     (if usable_default d then Inr d
      else (case s of
              None \<Rightarrow> Inr (JObj [])
            | Some kvs \<Rightarrow>
                (case jsonc_schema U kvs of Inl e \<Rightarrow> Inl e | Inr out \<Rightarrow> Inr (JObj out))))"
| "jsonc_value U (OtherRule t d) =
     (if usable_default d then Inr d
      else if t = Some ''boolean'' then Inr (JBool False)
      else if t = Some ''string'' then Inr (JStr [])
      else if t = Some ''number'' then Inr (JNum (JInt 0))
      else if t = Some ''array'' then Inr (JArr [])
      else if t = Some ''object'' then Inr (JObj [])
      else Inr JNull)"
| "jsonc_schema U [] = Inr []"
| "jsonc_schema U (kv # kvs) =
     (case parseRuleToJsonc U (snd kv) of
        Inl e \<Rightarrow> Inl e
      | Inr v \<Rightarrow>
          (case jsonc_schema U kvs of
             Inl e \<Rightarrow> Inl e
           | Inr out \<Rightarrow> Inr ((fst kv, v) # out)))"

section \<open>index.ts: the annotated serializer\<close>

text \<open>
  \<^verbatim>\<open>data[i]\<close>: reading an index of \<^verbatim>\<open>undefined\<close> or \<^verbatim>\<open>null\<close> raises a TypeError;
  an array and a string have their elements, an object its property of that name, and
  any other value has none.
\<close>

fun js_index :: "jsval \<Rightarrow> nat \<Rightarrow> error + jsval" where
  "js_index JUndefined i = Inl TypeError"
| "js_index JNull i = Inl TypeError"
| "js_index (JArr xs) i = Inr (if i < length xs then xs ! i else JUndefined)"
| "js_index (JStr s) i = Inr (if i < length s then JStr [s ! i] else JUndefined)"
| "js_index (JObj kvs) i = Inr (case map_of kvs (digits i) of Some v \<Rightarrow> v | None \<Rightarrow> JUndefined)"
| "js_index v i = Inr JUndefined"

text \<open>The strings of a \<^verbatim>\<open>map(...).join('')\<close>, in order; the first exception ends the map.\<close>

fun concat_results :: "(error + string) list \<Rightarrow> error + string" where
  "concat_results [] = Inr []"
| "concat_results (r # rs) =
     (case r of
        Inl e \<Rightarrow> Inl e
      | Inr s \<Rightarrow> (case concat_results rs of Inl e \<Rightarrow> Inl e | Inr t \<Rightarrow> Inr (s @ t)))"

text \<open>
  The method \<^verbatim>\<open>_stringifyJsonc\<close>.  The source adds one to \<open>indent\<close> on entry: the
  closing bracket is indented by the \<open>indent\<close> passed in, the members by one tab more.
\<close>

function stringifyJsonc :: "jsval \<Rightarrow> bool \<Rightarrow> nat \<Rightarrow> error + string" where
  "stringifyJsonc data is_last indent =
     (case js_index data 0 of
        Inl e \<Rightarrow> Inl e
      | Inr v \<Rightarrow>
          (case js_index data 1 of
             Inl e \<Rightarrow> Inl e
           | Inr c \<Rightarrow>
               (let comment = (if is_last then [] else '','') @
                              (if truthy c then '' // '' @ to_string c @ [newline] else [newline])
                in case v of
                     JStr s \<Rightarrow> Inr (dquote # s @ [dquote] @ comment)
                   | JNum n \<Rightarrow> Inr (num_toString n @ comment)
                   | JBool b \<Rightarrow> Inr (to_string (JBool b) @ comment)
                   | JNull \<Rightarrow> Inr (''null'' @ comment)
                   | JArr vs \<Rightarrow>
                       (case concat_results
                               (map (\<lambda>(i, x).
                                      case stringifyJsonc x (Suc i = length vs) (Suc indent) of
                                        Inl e \<Rightarrow> Inl e
                                      | Inr s \<Rightarrow> Inr (replicate (Suc indent) tab @ s))
                                    (zip [0..<length vs] vs)) of
                          Inl e \<Rightarrow> Inl e
                        | Inr body \<Rightarrow>
                            Inr (CHR ''['' # newline # body @ replicate indent tab @ '']'' @ comment))
                   | JObj kvs \<Rightarrow>
                       (case concat_results
                               (map (\<lambda>(i, kx).
                                      case stringifyJsonc (snd kx) (Suc i = length kvs) (Suc indent) of
                                        Inl e \<Rightarrow> Inl e
                                      | Inr s \<Rightarrow>
                                          Inr (replicate (Suc indent) tab @ dquote # fst kx @ dquote # '': '' @ s))
                                    (zip [0..<length kvs] kvs)) of
                          Inl e \<Rightarrow> Inl e
                        | Inr body \<Rightarrow>
                            Inr (CHR ''{'' # newline # body @ replicate indent tab @ ''}'' @ comment))
                   | _ \<Rightarrow> Inr [])))"
  by pat_completeness auto
termination
proof -
  have elem: "x \<in> set xs \<Longrightarrow> size x < Suc (size_list size xs)" for x :: jsval and xs
    by (induction xs) auto
  have pair: "(k, x) \<in> set kvs \<Longrightarrow> size x < Suc (size_list (size_prod (\<lambda>_. 0) size) kvs)"
    for k :: string and x :: jsval and kvs
    by (induction kvs) auto
  have idx: "js_index d i = Inr v \<Longrightarrow> size v \<le> size d" for d i v
  proof (cases d)
    case (JArr xs)
    assume "js_index d i = Inr v"
    with JArr show ?thesis
      using elem [of "xs ! i" xs] by (auto split: if_splits)
  next
    case (JObj kvs)
    assume "js_index d i = Inr v"
    with JObj show ?thesis
      using pair [of "digits i" v kvs] by (auto split: option.splits dest!: map_of_SomeD)
  qed (auto split: if_splits)
  have arr: "js_index d 0 = Inr (JArr xs) \<Longrightarrow> x \<in> set xs \<Longrightarrow> size x < size d" for d xs x
    using idx [of d 0 "JArr xs"] elem [of x xs] by simp
  have obj: "js_index d 0 = Inr (JObj kvs) \<Longrightarrow> (k, x) \<in> set kvs \<Longrightarrow> size x < size d"
    for d kvs k x
    using idx [of d 0 "JObj kvs"] pair [of k x kvs] by simp
  show ?thesis
    apply (relation "measure (\<lambda>(d, l, i). size d)")
      apply simp
     apply (auto dest!: set_zip_rightD intro: arr obj)
    done
qed

section \<open>Query parameters\<close>

fun rule_values :: "PrimitiveRule \<Rightarrow> jsval list option" where
  "rule_values (StringRule d vs) = map_option (map JStr) vs"
| "rule_values (NumberRule d vs i) = map_option (map JNum) vs"
| "rule_values _ = None"

fun rule_integer :: "PrimitiveRule \<Rightarrow> bool option" where
  "rule_integer (NumberRule d vs i) = i"
| "rule_integer _ = None"

text \<open>\<^verbatim>\<open>a || b\<close> on strings.\<close>

definition or_string :: "string \<Rightarrow> string \<Rightarrow> string" where
  "or_string a b = (if a = [] then b else a)"

text \<open>
  \<^verbatim>\<open>parseQueryRule\<close> (and the method \<^verbatim>\<open>_parseQueryRule\<close>, the same code).  Its argument
  is the representative of a rule position, \<^verbatim>\<open>undefined\<close> (\<open>None\<close>) for an empty
  list of variants.
\<close>

fun parseQueryRule :: "PrimitiveRule option \<Rightarrow> string" where
  "parseQueryRule None = []"
| "parseQueryRule (Some rule) =
     (if typeof (rule_default rule) = ''string'' \<or> typeof (rule_default rule) = ''number''
      then or_string (to_string (rule_default rule)) []
      else if typeof (rule_default rule) = ''boolean''
      then (if truthy (rule_default rule) then ''1'' else ''0'')
      else (case rule_values rule of
              Some vs \<Rightarrow>
                (case vs of [] \<Rightarrow> [] | v # _ \<Rightarrow> or_string (to_string v) [])
            | None \<Rightarrow>
                if rule_type rule = Some ''string'' then []
                else if rule_type rule = Some ''number''
                then (if rule_integer rule = Some True then ''0'' else ''0.0'')
                else if rule_type rule = Some ''boolean'' then ''0''
                else []))"

record Query =
  q_key :: string
  q_value :: string
  q_description :: "string option"

text \<open>\<^verbatim>\<open>parseQuery\<close> of collection-schema.ts and the method \<^verbatim>\<open>_parseQuery\<close> of index.ts.\<close>

definition parseQuery :: "(jsval \<Rightarrow> string) \<Rightarrow> ValidationSchema option \<Rightarrow> Query list" where
  "parseQuery U query =
     (case query of
        None \<Rightarrow> []
      | Some q \<Rightarrow>
          map (\<lambda>kv. \<lparr>q_key = fst kv,
                      q_value = parseQueryRule (representative (snd kv)),
                      q_description = inspect U (vrule_js (snd kv)) False\<rparr>) q)"

definition builder_parseQuery :: "(jsval \<Rightarrow> string) \<Rightarrow> ValidationSchema option \<Rightarrow> Query list" where
  "builder_parseQuery U query =
     (case query of
        None \<Rightarrow> []
      | Some q \<Rightarrow>
          map (\<lambda>kv. \<lparr>q_key = fst kv,
                      q_value = parseQueryRule (representative (snd kv)),
                      q_description = parseDescription U (snd kv)\<rparr>) q)"

section \<open>Locations\<close>

text \<open>\<^verbatim>\<open>String.prototype.split\<close> on a one-character separator.\<close>

fun js_split :: "char \<Rightarrow> string \<Rightarrow> string list" where
  "js_split sep [] = [[]]"
| "js_split sep (c # cs) =
     (if c = sep then [] # js_split sep cs
      else (case js_split sep cs of
              [] \<Rightarrow> [[c]]
            | w # ws \<Rightarrow> (c # w) # ws))"

text \<open>\<^verbatim>\<open>xs.slice(0, m)\<close>: a negative \<open>m\<close> counts from the end.\<close>

definition slice0 :: "int \<Rightarrow> 'a list \<Rightarrow> 'a list" where
  "slice0 m xs = (if m < 0 then take (nat (int (length xs) + m)) xs else take (nat m) xs)"

text \<open>
  The regular expression \<^verbatim>\<open>/^:([a-z_$][a-z0-9_$]*)(\(.*\))?$/i\<close>: a colon, an
  identifier, and then nothing or a parenthesised constraint up to the end of the
  segment (\<^verbatim>\<open>.\<close> matches no line terminator).  A matching segment is rewritten to the
  colon and the identifier.
\<close>

definition is_letter :: "char \<Rightarrow> bool" where
  "is_letter c = (let n = (of_char c :: nat) in (97 \<le> n \<and> n \<le> 122) \<or> (65 \<le> n \<and> n \<le> 90))"

definition is_digit :: "char \<Rightarrow> bool" where
  "is_digit c = (let n = (of_char c :: nat) in 48 \<le> n \<and> n \<le> 57)"

definition ident_start :: "char \<Rightarrow> bool" where
  "ident_start c = (is_letter c \<or> c = CHR ''_'' \<or> c = CHR ''$'')"

definition ident_char :: "char \<Rightarrow> bool" where
  "ident_char c = (is_letter c \<or> is_digit c \<or> c = CHR ''_'' \<or> c = CHR ''$'')"

definition constraint_ok :: "string \<Rightarrow> bool" where
  "constraint_ok rest =
     (rest = [] \<or>
      (2 \<le> length rest \<and> hd rest = CHR ''('' \<and> last rest = CHR '')'' \<and>
       list_all (\<lambda>c. c \<noteq> newline \<and> c \<noteq> CHR 0x0D) (butlast (tl rest))))"

fun rewrite_segment :: "string \<Rightarrow> string" where
  "rewrite_segment (c # d # rest) =
     (if c = CHR '':'' \<and> ident_start d \<and> constraint_ok (dropWhile ident_char rest)
      then c # d # takeWhile ident_char rest
      else c # d # rest)"
| "rewrite_segment p = p"

record Variable =
  v_key :: string
  v_value :: string
  v_description :: "string option"

record Location =
  loc_folders :: "string list"
  loc_url :: string
  loc_host :: "string list"
  loc_path :: "string list"
  loc_variable :: "Variable list"

text \<open>\<^verbatim>\<open>param[key]\<close>: the rule of a path parameter, \<^verbatim>\<open>undefined\<close> when the key is absent.\<close>

definition param_lookup :: "(string \<times> ValidationRule) list \<Rightarrow> string \<Rightarrow> jsval" where
  "param_lookup param k = (case map_of param k of None \<Rightarrow> JUndefined | Some r \<Rightarrow> vrule_js r)"

text \<open>
  \<^verbatim>\<open>parseLocation\<close> of collection-schema.ts and the method \<^verbatim>\<open>_parseLocation\<close> of
  index.ts, which differ in the description of a variable only: the method calls
  \<^verbatim>\<open>util.inspect\<close> itself.
\<close>

definition parseLocation ::
  "(jsval \<Rightarrow> string) \<Rightarrow> string \<Rightarrow> (string \<times> ValidationRule) list \<Rightarrow> string list \<Rightarrow> int \<Rightarrow> Location" where
  "parseLocation U path param paramOrder maxFolders =
     (let paths = js_split CHR ''/'' (drop 1 path);
          folders = slice0 maxFolders paths;
          path' = join ''/'' (map rewrite_segment paths);
          variable = map (\<lambda>k. \<lparr>v_key = k, v_value = [],
                                 v_description = inspect U (param_lookup param k) False\<rparr>) paramOrder;
          url = ''{{host}}/'' @ path';
          host = [''{{host}}'']
      in \<lparr>loc_folders = folders, loc_url = url, loc_host = host,
          loc_path = js_split CHR ''/'' path', loc_variable = variable\<rparr>)"

definition builder_parseLocation ::
  "(jsval \<Rightarrow> string) \<Rightarrow> string \<Rightarrow> (string \<times> ValidationRule) list \<Rightarrow> string list \<Rightarrow> int \<Rightarrow> Location" where
  "builder_parseLocation U path param paramOrder maxFolders =
     (let paths = js_split CHR ''/'' (drop 1 path);
          folders = slice0 maxFolders paths;
          path' = join ''/'' (map rewrite_segment paths);
          variable = map (\<lambda>k. \<lparr>v_key = k, v_value = [],
                                 v_description = Some (U (param_lookup param k))\<rparr>) paramOrder;
          url = ''{{host}}/'' @ path';
          host = [''{{host}}'']
      in \<lparr>loc_folders = folders, loc_url = url, loc_host = host,
          loc_path = js_split CHR ''/'' path', loc_variable = variable\<rparr>)"

section \<open>Request bodies\<close>

datatype Formdata =
    FileField string "string option"
  | TextField string string "string option"

datatype BodyData = BodyUndefined | BodyString string | BodyFormdata "Formdata list"

text \<open>
  The fields of a multipart body, \<open>describe\<close> being the description function of the
  file at hand.  Reading \<^verbatim>\<open>.type\<close> of the representative of an empty list of variants
  raises a TypeError.
\<close>

fun formdata_fields :: "(ValidationRule \<Rightarrow> string option) \<Rightarrow> ValidationSchema \<Rightarrow> error + Formdata list" where
  "formdata_fields describe [] = Inr []"
| "formdata_fields describe (kv # kvs) =
     (case representative (snd kv) of
        None \<Rightarrow> Inl TypeError
      | Some rule \<Rightarrow>
          (case formdata_fields describe kvs of
             Inl e \<Rightarrow> Inl e
           | Inr out \<Rightarrow>
               Inr ((if rule_type rule = Some ''object''
                     then FileField (fst kv) (describe (snd kv))
                     else TextField (fst kv) (parseQueryRule (Some rule)) (describe (snd kv))) # out)))"

text \<open>
  \<^verbatim>\<open>JSON.stringify(v, null, '\t')\<close> is \<^verbatim>\<open>undefined\<close> for \<^verbatim>\<open>undefined\<close> and for a
  function, and a text otherwise, which the parameter \<open>S\<close> gives.  \<open>template\<close> is
  the conversion of a template literal on a string or \<^verbatim>\<open>undefined\<close>.
\<close>

definition json_stringify :: "(jsval \<Rightarrow> string) \<Rightarrow> jsval \<Rightarrow> string option" where
  "json_stringify S v = (if typeof v = ''undefined'' \<or> typeof v = ''function'' then None else Some (S v))"

fun template :: "string option \<Rightarrow> string" where
  "template None = ''undefined''"
| "template (Some s) = s"

fun rule_object_schema :: "PrimitiveRule \<Rightarrow> ValidationSchema option" where
  "rule_object_schema (ObjectRule d s n) = s"
| "rule_object_schema _ = None"

text \<open>\<^verbatim>\<open>parseBody\<close> of collection-schema.ts.\<close>

definition parseBody ::
  "(jsval \<Rightarrow> string) \<Rightarrow> (jsval \<Rightarrow> string) \<Rightarrow> ValidationRule option \<Rightarrow> string option \<Rightarrow> bool
     \<Rightarrow> error + BodyData" where
  "parseBody U S bodyRule bodyType commentsInJson =
     (case bodyRule of
        None \<Rightarrow> Inr BodyUndefined
      | Some br \<Rightarrow>
          if bodyType = Some ''json''
          then (case parseRuleToJsonData br of
                  Inl e \<Rightarrow> Inl e
                | Inr v \<Rightarrow>
                    (let jsonData = json_stringify S v
                     in if commentsInJson
                        then Inr (BodyString
                               (template jsonData @ [newline] @ ''/*'' @ [newline] @
                                template (inspect U
                                  (case br of
                                     Single (ObjectRule d (Some sch) None) \<Rightarrow> JObj (schema_js sch)
                                   | _ \<Rightarrow> vrule_js br) True) @ [newline] @ ''*/''))
                        else Inr (case jsonData of None \<Rightarrow> BodyUndefined | Some t \<Rightarrow> BodyString t)))
          else if bodyType = Some ''multipart''
          then (case (case representative br of
                        None \<Rightarrow> None
                      | Some pr \<Rightarrow> if rule_type pr = Some ''object'' then rule_object_schema pr else None) of
                  None \<Rightarrow> Inr BodyUndefined
                | Some body \<Rightarrow>
                    (case formdata_fields (\<lambda>r. inspect U (vrule_js r) False) body of
                       Inl e \<Rightarrow> Inl e
                     | Inr out \<Rightarrow> Inr (BodyFormdata out)))
          else Inr BodyUndefined)"

text \<open>
  \<^verbatim>\<open>Object.assign(p, { [n]: v })\<close> sets the property \<open>n\<close> of \<open>p\<close>.  For the name
  \<^verbatim>\<open>__proto__\<close> that is the setter of \<^verbatim>\<open>Object.prototype\<close>, which changes the prototype
  of \<open>p\<close> and adds no member to it; another name is a member of \<open>p\<close>, replaced where
  it stands or added last.  \<open>body_members\<close> is the
  \<^verbatim>\<open>Object.keys(body).reduce((p, n) => Object.assign(p, ...), {})\<close> of \<^verbatim>\<open>_parseBody\<close>.
\<close>

definition object_assign :: "(string \<times> jsval) list \<Rightarrow> string \<Rightarrow> jsval \<Rightarrow> (string \<times> jsval) list" where
  "object_assign p n v =
     (if n = ''__proto__'' then p
      else if n \<in> set (map fst p) then map (\<lambda>kv. if fst kv = n then (n, v) else kv) p
      else p @ [(n, v)])"

fun body_members ::
  "(jsval \<Rightarrow> string) \<Rightarrow> (string \<times> ValidationRule) list \<Rightarrow> (string \<times> jsval) list
     \<Rightarrow> error + (string \<times> jsval) list" where
  "body_members U [] p = Inr p"
| "body_members U (kv # kvs) p =
     (case parseRuleToJsonc U (snd kv) of
        Inl e \<Rightarrow> Inl e
      | Inr v \<Rightarrow> body_members U kvs (object_assign p (fst kv) v))"

text \<open>The method \<^verbatim>\<open>_parseBody\<close> of index.ts, whose body is a schema.\<close>

definition builder_parseBody ::
  "(jsval \<Rightarrow> string) \<Rightarrow> ValidationSchema option \<Rightarrow> string option \<Rightarrow> error + BodyData" where
  "builder_parseBody U body bodyType =
     (case body of
        None \<Rightarrow> Inr BodyUndefined
      | Some b \<Rightarrow>
          if bodyType = Some ''json''
          then (case body_members U b [] of
                  Inl e \<Rightarrow> Inl e
                | Inr out \<Rightarrow>
                    (case stringifyJsonc (JArr [JObj out]) True 0 of
                       Inl e \<Rightarrow> Inl e
                     | Inr t \<Rightarrow> Inr (BodyString t)))
          else if bodyType = Some ''multipart''
          then (case formdata_fields (parseDescription U) b of
                  Inl e \<Rightarrow> Inl e
                | Inr out \<Rightarrow> Inr (BodyFormdata out))
          else Inr BodyUndefined)"

section \<open>The collection tree\<close>

text \<open>
  Modelled from the spec: \<^verbatim>\<open>BuiltEndpoint\<close> is declared in the package \<^verbatim>\<open>@evojs/http\<close>.
  An endpoint has a path template, an HTTP method, the rules of its path parameters and
  their order, the rules of its query parameters, a body rule (\<^verbatim>\<open>bodyRule\<close>, read by
  collection-schema.ts) or a body schema (\<^verbatim>\<open>body\<close>, read by index.ts), and a body
  encoding.
\<close>

record BuiltEndpoint =
  ep_path :: string
  ep_method :: string
  ep_param :: "(string \<times> ValidationRule) list"
  ep_paramOrder :: "string list"
  ep_query :: "ValidationSchema option"
  ep_bodyRule :: "ValidationRule option"
  ep_body :: "ValidationSchema option"
  ep_bodyType :: "string option"

text \<open>The bearer block \<^verbatim>\<open>Auth\<close>, as the token values of its entries.\<close>

record Auth =
  auth_bearer :: "string list"

record BuildCollectionOptions =
  commentsInJson :: "bool option"
  maxFolders :: "int option"
  authorization :: "(BuiltEndpoint \<Rightarrow> Auth option) option"

record Header =
  h_key :: string
  h_value :: string

datatype Body = RawBody string | FormdataBody "Formdata list"

record Url =
  url_raw :: string
  url_host :: "string list"
  url_path :: "string list"
  url_variable :: "Variable list"
  url_query :: "Query list"

record Request =
  req_method :: string
  req_header :: "Header list"
  req_body :: "Body option"
  req_url :: Url
  req_auth :: "Auth option"

text \<open>An item; its \<^verbatim>\<open>response\<close> is always the empty array.\<close>

record Item =
  item_name :: string
  item_request :: Request

datatype Node = FolderItem string "Node list" | RequestItem Item

fun node_name :: "Node \<Rightarrow> string" where
  "node_name (FolderItem n children) = n"
| "node_name (RequestItem it) = item_name it"

text \<open>
  The walk over \<^verbatim>\<open>location.folders\<close> and the final push.  At each level
  \<^verbatim>\<open>item.find((fi) => fi.name === f)\<close> takes the first sibling of that name; its
  \<^verbatim>\<open>item\<close> list is the next level when it has one (it is a folder), and otherwise a
  folder of that name is pushed and entered.  The source mutates the found folder in
  place: here it is replaced where it stands.
\<close>

fun replace_first :: "string \<Rightarrow> Node \<Rightarrow> Node list \<Rightarrow> Node list" where
  "replace_first f new [] = []"
| "replace_first f new (x # xs) =
     (if node_name x = f then new # xs else x # replace_first f new xs)"

fun insert_item :: "string list \<Rightarrow> Node \<Rightarrow> Node list \<Rightarrow> Node list" where
  "insert_item [] leaf item = item @ [leaf]"
| "insert_item (f # fs) leaf item =
     (case List.find (\<lambda>fi. node_name fi = f) item of
        Some (FolderItem n children) \<Rightarrow>
          replace_first f (FolderItem n (insert_item fs leaf children)) item
      | _ \<Rightarrow> item @ [FolderItem f (insert_item fs leaf [])])"

text \<open>
  The truthiness of \<^verbatim>\<open>bodyData\<close> and the body envelope:
  \<^verbatim>\<open>['POST', 'PUT', 'PATCH', 'DELETE'].includes(e.method) && bodyData\<close>.
\<close>

fun bodydata_truthy :: "BodyData \<Rightarrow> bool" where
  "bodydata_truthy BodyUndefined = False"
| "bodydata_truthy (BodyString t) = (t \<noteq> [])"
| "bodydata_truthy (BodyFormdata fs) = True"

definition body_envelope :: "string \<Rightarrow> BodyData \<Rightarrow> Body option" where
  "body_envelope m bodyData =
     (if List.member [''POST'', ''PUT'', ''PATCH'', ''DELETE''] m \<and> bodydata_truthy bodyData
      then (case bodyData of
              BodyString t \<Rightarrow> Some (RawBody t)
            | BodyFormdata fs \<Rightarrow> Some (FormdataBody fs)
            | BodyUndefined \<Rightarrow> None)
      else None)"

definition content_type_json :: Header where
  "content_type_json = \<lparr>h_key = ''Content-Type'', h_value = ''application/json''\<rparr>"

text \<open>
  \<^verbatim>\<open>buildItems\<close> of collection-schema.ts: \<open>endpoint_item\<close> is what one round of the
  loop computes before the walk, the folders and the item to push; an exception of
  \<^verbatim>\<open>parseBody\<close> ends the build.
\<close>

definition endpoint_item ::
  "(jsval \<Rightarrow> string) \<Rightarrow> (jsval \<Rightarrow> string) \<Rightarrow> BuildCollectionOptions \<Rightarrow> BuiltEndpoint
     \<Rightarrow> error + (string list \<times> Item)" where
  "endpoint_item U S options e =
     (let location = parseLocation U (ep_path e) (ep_param e) (ep_paramOrder e)
                       (case maxFolders options of None \<Rightarrow> 2 | Some m \<Rightarrow> m);
          query = parseQuery U (ep_query e)
      in case parseBody U S (ep_bodyRule e) (ep_bodyType e) (commentsInJson options = Some True) of
           Inl err \<Rightarrow> Inl err
         | Inr bodyData \<Rightarrow>
             (let body = body_envelope (ep_method e) bodyData
              in Inr (loc_folders location,
                   \<lparr>item_name = drop (length (hd (loc_host location))) (loc_url location),
                    item_request =
                      \<lparr>req_method = ep_method e,
                       req_header = (case body of Some (RawBody t) \<Rightarrow> [content_type_json] | _ \<Rightarrow> []),
                       req_body = body,
                       req_url = \<lparr>url_raw = loc_url location, url_host = loc_host location,
                                  url_path = loc_path location,
                                  url_variable = loc_variable location, url_query = query\<rparr>,
                       req_auth = (case authorization options of None \<Rightarrow> None | Some f \<Rightarrow> f e)\<rparr>\<rparr>)))"

fun buildItems_loop ::
  "(jsval \<Rightarrow> string) \<Rightarrow> (jsval \<Rightarrow> string) \<Rightarrow> BuildCollectionOptions \<Rightarrow> BuiltEndpoint list
     \<Rightarrow> Node list \<Rightarrow> error + Node list" where
  "buildItems_loop U S options [] out = Inr out"
| "buildItems_loop U S options (e # es) out =
     (case endpoint_item U S options e of
        Inl err \<Rightarrow> Inl err
      | Inr fi \<Rightarrow> buildItems_loop U S options es (insert_item (fst fi) (RequestItem (snd fi)) out))"

definition buildItems ::
  "(jsval \<Rightarrow> string) \<Rightarrow> (jsval \<Rightarrow> string) \<Rightarrow> BuiltEndpoint list \<Rightarrow> BuildCollectionOptions
     \<Rightarrow> error + Node list" where
  "buildItems U S endpoints options = buildItems_loop U S options endpoints []"

text \<open>
  The method \<^verbatim>\<open>addEndpoints\<close> of index.ts, on the item list of the builder's collection:
  \<open>builder_item\<close> is what one round of the loop computes before the walk.  The method
  passes no \<^verbatim>\<open>maxFolders\<close>, so the default 2 applies; \<open>auth\<close> is the builder's
  \<^verbatim>\<open>authorization\<close> option.
\<close>

definition builder_item ::
  "(jsval \<Rightarrow> string) \<Rightarrow> (BuiltEndpoint \<Rightarrow> Auth option) option \<Rightarrow> BuiltEndpoint
     \<Rightarrow> error + (string list \<times> Item)" where
  "builder_item U auth e =
     (let location = builder_parseLocation U (ep_path e) (ep_param e) (ep_paramOrder e) 2;
          query = builder_parseQuery U (ep_query e)
      in case builder_parseBody U (ep_body e) (ep_bodyType e) of
           Inl err \<Rightarrow> Inl err
         | Inr parsed \<Rightarrow>
             (let bodyData = (if bodydata_truthy parsed then parsed else BodyString ''{}'');
                  body = body_envelope (ep_method e) bodyData
              in Inr (loc_folders location,
                   \<lparr>item_name = drop (length (hd (loc_host location))) (loc_url location),
                    item_request =
                      \<lparr>req_method = ep_method e,
                       req_header = [content_type_json],
                       req_body = body,
                       req_url = \<lparr>url_raw = loc_url location, url_host = loc_host location,
                                  url_path = loc_path location,
                                  url_variable = loc_variable location, url_query = query\<rparr>,
                       req_auth = (case auth of None \<Rightarrow> None | Some f \<Rightarrow> f e)\<rparr>\<rparr>)))"

fun addEndpoints ::
  "(jsval \<Rightarrow> string) \<Rightarrow> (BuiltEndpoint \<Rightarrow> Auth option) option \<Rightarrow> BuiltEndpoint list
     \<Rightarrow> Node list \<Rightarrow> error + Node list" where
  "addEndpoints U auth [] item = Inr item"
| "addEndpoints U auth (e # es) item =
     (case builder_item U auth e of
        Inl err \<Rightarrow> Inl err
      | Inr fi \<Rightarrow> addEndpoints U auth es (insert_item (fst fi) (RequestItem (snd fi)) item))"

section \<open>Samples\<close>

text \<open>
  A stand-in for Node's \<^verbatim>\<open>util.inspect\<close> in the examples: the one-line form that Node
  prints for a short value.
\<close>

fun sample_inspect :: "jsval \<Rightarrow> string" where
  "sample_inspect JUndefined = ''undefined''"
| "sample_inspect JNull = ''null''"
| "sample_inspect (JBool b) = (if b then ''true'' else ''false'')"
| "sample_inspect (JNum n) = num_toString n"
| "sample_inspect (JStr s) = CHR 0x27 # s @ [CHR 0x27]"
| "sample_inspect (JFunction src) = ''[Function]''"
| "sample_inspect (JArr xs) =
     (if xs = [] then ''[]'' else ''[ '' @ join '', '' (map sample_inspect xs) @ '' ]'')"
| "sample_inspect (JObj kvs) =
     (if kvs = [] then ''{}''
      else ''{ '' @ join '', '' (map (\<lambda>kv. fst kv @ '': '' @ sample_inspect (snd kv)) kvs) @ '' }'')"

text \<open>Two endpoints under the same two folders, the options all absent, and a rule with its schema.\<close>

definition orders_endpoint :: BuiltEndpoint where
  "orders_endpoint =
     \<lparr>ep_path = ''/users/:id(x+)/orders'', ep_method = ''GET'', ep_param = [],
      ep_paramOrder = [], ep_query = None, ep_bodyRule = None, ep_body = None,
      ep_bodyType = None\<rparr>"

definition profile_endpoint :: BuiltEndpoint where
  "profile_endpoint =
     \<lparr>ep_path = ''/users/:id(x+)/profile'', ep_method = ''GET'', ep_param = [],
      ep_paramOrder = [], ep_query = None, ep_bodyRule = None, ep_body = None,
      ep_bodyType = None\<rparr>"

definition no_options :: BuildCollectionOptions where
  "no_options = \<lparr>commentsInJson = None, maxFolders = None, authorization = None\<rparr>"

definition person_schema :: ValidationSchema where
  "person_schema =
     [(''name'', Single (StringRule JUndefined (Some [''bob'']))),
      (''age'', Single (NumberRule (JNum (JInt 42)) None None)),
      (''tags'', Single (ArrayRule JUndefined None (Some (Single (BooleanRule JUndefined))) (Some 2)))]"

definition person_rule :: ValidationRule where
  "person_rule = Single (ObjectRule JUndefined (Some person_schema) None)"

section \<open>Invariants of the collection tree\<close>

text \<open>The names of the folders of a sibling list, in order.\<close>

fun folder_names :: "Node list \<Rightarrow> string list" where
  "folder_names [] = []"
| "folder_names (FolderItem n children # xs) = n # folder_names xs"
| "folder_names (RequestItem it # xs) = folder_names xs"

text \<open>No two sibling folders of the same name, below a node and in a sibling list.\<close>

fun no_duplicate_folders :: "Node \<Rightarrow> bool" where
  "no_duplicate_folders (FolderItem n children) =
     (distinct (folder_names children) \<and> list_all no_duplicate_folders children)"
| "no_duplicate_folders (RequestItem it) = True"

definition folders_distinct :: "Node list \<Rightarrow> bool" where
  "folders_distinct item = (distinct (folder_names item) \<and> list_all no_duplicate_folders item)"

text \<open>Every folder is named without a slash and every request item with one.\<close>

fun names_ok :: "Node \<Rightarrow> bool" where
  "names_ok (FolderItem n children) = (CHR ''/'' \<notin> set n \<and> list_all names_ok children)"
| "names_ok (RequestItem it) = (CHR ''/'' \<in> set (item_name it))"

text \<open>The names of a tree, without the requests.\<close>

datatype Outline = Named string "Outline list"

fun outline :: "Node \<Rightarrow> Outline" where
  "outline (FolderItem n children) = Named n (map outline children)"
| "outline (RequestItem it) = Named (item_name it) []"

text \<open>
  The request items among the siblings of a list, in order; the sibling list that the
  walk over a folder list reaches, by the lookup of the source (the first sibling of
  the folder's name, which has to be a folder); the requests found there; and all
  the requests below a node.
\<close>

fun requests :: "Node list \<Rightarrow> Item list" where
  "requests [] = []"
| "requests (FolderItem n children # xs) = requests xs"
| "requests (RequestItem it # xs) = it # requests xs"

fun walk :: "string list \<Rightarrow> Node list \<Rightarrow> Node list option" where
  "walk [] item = Some item"
| "walk (f # fs) item =
     (case List.find (\<lambda>fi. node_name fi = f) item of
        Some (FolderItem n children) \<Rightarrow> walk fs children
      | _ \<Rightarrow> None)"

definition requests_at :: "string list \<Rightarrow> Node list \<Rightarrow> Item list" where
  "requests_at fs item = (case walk fs item of None \<Rightarrow> [] | Some xs \<Rightarrow> requests xs)"

fun leaves :: "Node \<Rightarrow> Item list" where
  "leaves (FolderItem n children) = concat (map leaves children)"
| "leaves (RequestItem it) = [it]"

section \<open>The value of a query parameter, in the spec's words\<close>

text \<open>
  A string, number or boolean default as a string, a boolean as \<^verbatim>\<open>1\<close> or \<^verbatim>\<open>0\<close>; else
  the first enumerated value as a string (the empty string when the list of values is
  empty); else by type.
\<close>

fun scalar_default :: "jsval \<Rightarrow> string option" where
  "scalar_default (JStr s) = Some s"
| "scalar_default (JNum n) = Some (num_toString n)"
| "scalar_default (JBool b) = Some (if b then ''1'' else ''0'')"
| "scalar_default _ = None"

fun first_value :: "PrimitiveRule \<Rightarrow> string option" where
  "first_value (StringRule d (Some [])) = Some []"
| "first_value (StringRule d (Some (v # vs))) = Some v"
| "first_value (NumberRule d (Some []) i) = Some []"
| "first_value (NumberRule d (Some (v # vs)) i) = Some (num_toString v)"
| "first_value _ = None"

fun value_by_type :: "PrimitiveRule \<Rightarrow> string" where
  "value_by_type (StringRule d vs) = []"
| "value_by_type (NumberRule d vs i) = (if i = Some True then ''0'' else ''0.0'')"
| "value_by_type (BooleanRule d) = ''0''"
| "value_by_type (OtherRule t d) =
     (if t = Some ''number'' then ''0.0'' else if t = Some ''boolean'' then ''0'' else [])"
| "value_by_type _ = []"

definition query_value :: "PrimitiveRule \<Rightarrow> string" where
  "query_value r =
     (case scalar_default (rule_default r) of
        Some s \<Rightarrow> s
      | None \<Rightarrow> (case first_value r of Some s \<Rightarrow> s | None \<Rightarrow> value_by_type r))"

section \<open>Reading annotated JSON back\<close>

text \<open>
  The round trip of the serializer needs a reader of its output, which the builder does
  not have: this one reads JSON with line comments, as a JSONC parser does.  White
  space is the space, the tab, the line feed and the carriage return; a comment runs
  from \<^verbatim>\<open>//\<close> outside a string to the end of the line.  A string has no escape
  sequence and no control character.  A number is the longest run of digits, signs,
  points and exponent marks, which has to be a number of JSON: an optional minus
  sign, digits without a leading zero, an optional fraction and an optional exponent.
  The text \<^verbatim>\<open>-0\<close> is read as negative zero, the text of a safe integer as that
  integer, and any other text as the double of that text: the texts that
  \<^verbatim>\<open>Number.prototype.toString\<close> writes, which are the numbers of the serializer, name
  their doubles.  The reader does not return on a text where it finds no value.
\<close>

definition is_ws :: "char \<Rightarrow> bool" where
  "is_ws c = (c = CHR '' '' \<or> c = tab \<or> c = newline \<or> c = CHR 0x0D)"

fun skip_ws :: "bool \<Rightarrow> string \<Rightarrow> string" where
  "skip_ws in_comment [] = []"
| "skip_ws in_comment (c # cs) =
     (if in_comment then (if c = newline then skip_ws False cs else skip_ws True cs)
      else if is_ws c then skip_ws False cs
      else if c = CHR ''/'' \<and> (case cs of [] \<Rightarrow> False | d # _ \<Rightarrow> d = CHR ''/'') then skip_ws True cs
      else c # cs)"

definition plain_char :: "char \<Rightarrow> bool" where
  "plain_char c = (c \<noteq> dquote \<and> c \<noteq> CHR 0x5C \<and> (32::nat) \<le> of_char c)"

fun parse_chars :: "string \<Rightarrow> (string \<times> string) option" where
  "parse_chars [] = None"
| "parse_chars (c # cs) =
     (if c = dquote then Some ([], cs)
      else if plain_char c
      then (case parse_chars cs of None \<Rightarrow> None | Some sr \<Rightarrow> Some (c # fst sr, snd sr))
      else None)"

definition digit_value :: "char \<Rightarrow> nat" where
  "digit_value c = of_char c - 48"

definition parse_nat :: "string \<Rightarrow> (nat \<times> string) option" where
  "parse_nat cs =
     (let ds = takeWhile is_digit cs
      in if ds = [] \<or> (1 < length ds \<and> hd ds = CHR ''0'') then None
         else Some (foldl (\<lambda>n d. 10 * n + digit_value d) 0 ds, dropWhile is_digit cs))"

definition parse_integer :: "string \<Rightarrow> (int \<times> string) option" where
  "parse_integer cs =
     (case cs of
        [] \<Rightarrow> None
      | c # r \<Rightarrow>
          if c = CHR ''-''
          then map_option (\<lambda>nr. (- int (fst nr), snd nr)) (parse_nat r)
          else map_option (\<lambda>nr. (int (fst nr), snd nr)) (parse_nat cs))"

definition number_char :: "char \<Rightarrow> bool" where
  "number_char c =
     (is_digit c \<or> c = CHR ''-'' \<or> c = CHR ''+'' \<or> c = CHR ''.'' \<or> c = CHR ''e'' \<or> c = CHR ''E'')"

definition exponent_text :: "string \<Rightarrow> bool" where
  "exponent_text r =
     (case r of
        [] \<Rightarrow> True
      | c # r' \<Rightarrow>
          (c = CHR ''e'' \<or> c = CHR ''E'') \<and>
          (let ds = (case r' of
                       [] \<Rightarrow> []
                     | d # r'' \<Rightarrow> if d = CHR ''+'' \<or> d = CHR ''-'' then r'' else r')
           in ds \<noteq> [] \<and> list_all is_digit ds))"

definition fraction_text :: "string \<Rightarrow> bool" where
  "fraction_text r =
     (case r of
        [] \<Rightarrow> True
      | c # r' \<Rightarrow>
          if c = CHR ''.''
          then takeWhile is_digit r' \<noteq> [] \<and> exponent_text (dropWhile is_digit r')
          else exponent_text r)"

definition number_text :: "string \<Rightarrow> bool" where
  "number_text t =
     (let r = (case t of [] \<Rightarrow> [] | c # r' \<Rightarrow> if c = CHR ''-'' then r' else t);
          ds = takeWhile is_digit r
      in ds \<noteq> [] \<and> \<not> (1 < length ds \<and> hd ds = CHR ''0'') \<and> fraction_text (dropWhile is_digit r))"

definition max_safe_integer :: int where
  "max_safe_integer = 9007199254740991"

definition number_value :: "string \<Rightarrow> jsnum" where
  "number_value t =
     (if t = ''-0'' then JNegZero
      else (case parse_integer t of
              None \<Rightarrow> JDouble t
            | Some ir \<Rightarrow>
                if snd ir = [] \<and> \<bar>fst ir\<bar> \<le> max_safe_integer then JInt (fst ir) else JDouble t))"

definition parse_number :: "string \<Rightarrow> (jsval \<times> string) option" where
  "parse_number cs =
     (let t = takeWhile number_char cs
      in if number_text t then Some (JNum (number_value t), dropWhile number_char cs) else None)"

definition parse_scalar :: "string \<Rightarrow> (jsval \<times> string) option" where
  "parse_scalar cs =
     (if take 4 cs = ''null'' then Some (JNull, drop 4 cs)
      else if take 4 cs = ''true'' then Some (JBool True, drop 4 cs)
      else if take 5 cs = ''false'' then Some (JBool False, drop 5 cs)
      else parse_number cs)"

datatype mode = Value | Elements | Members

partial_function (option) parse_json :: "mode \<Rightarrow> string \<Rightarrow> (jsval \<times> string) option" where
  "parse_json m cs =
     (case m of
        Value \<Rightarrow>
          (case skip_ws False cs of
             [] \<Rightarrow> None
           | c # r \<Rightarrow>
               if c = dquote
               then (case parse_chars r of None \<Rightarrow> None | Some sr \<Rightarrow> Some (JStr (fst sr), snd sr))
               else if c = CHR ''[''
               then (case skip_ws False r of
                       [] \<Rightarrow> None
                     | d # r' \<Rightarrow> if d = CHR '']'' then Some (JArr [], r') else parse_json Elements r)
               else if c = CHR ''{''
               then (case skip_ws False r of
                       [] \<Rightarrow> None
                     | d # r' \<Rightarrow> if d = CHR ''}'' then Some (JObj [], r') else parse_json Members r)
               else parse_scalar (c # r))
      | Elements \<Rightarrow>
          Option.bind (parse_json Value cs) (\<lambda>vr.
            case skip_ws False (snd vr) of
              [] \<Rightarrow> None
            | d # r \<Rightarrow>
                if d = CHR '',''
                then Option.bind (parse_json Elements r) (\<lambda>wr.
                       case fst wr of
                         JArr vs \<Rightarrow> Some (JArr (fst vr # vs), snd wr)
                       | _ \<Rightarrow> None)
                else if d = CHR '']'' then Some (JArr [fst vr], r)
                else None)
      | Members \<Rightarrow>
          (case skip_ws False cs of
             [] \<Rightarrow> None
           | c # r \<Rightarrow>
               if c = dquote
               then (case parse_chars r of
                       None \<Rightarrow> None
                     | Some kr \<Rightarrow>
                         (case skip_ws False (snd kr) of
                            [] \<Rightarrow> None
                          | d # r' \<Rightarrow>
                              if d = CHR '':''
                              then Option.bind (parse_json Value r') (\<lambda>vr.
                                     case skip_ws False (snd vr) of
                                       [] \<Rightarrow> None
                                     | e # r'' \<Rightarrow>
                                         if e = CHR '',''
                                         then Option.bind (parse_json Members r'') (\<lambda>wr.
                                                case fst wr of
                                                  JObj kvs \<Rightarrow> Some (JObj ((fst kr, fst vr) # kvs), snd wr)
                                                | _ \<Rightarrow> None)
                                         else if e = CHR ''}'' then Some (JObj [(fst kr, fst vr)], r'')
                                         else None)
                              else None))
               else None))"

declare parse_json.simps [code]

definition parse_jsonc :: "string \<Rightarrow> jsval option" where
  "parse_jsonc text =
     (case parse_json Value text of
        None \<Rightarrow> None
      | Some vr \<Rightarrow> if skip_ws False (snd vr) = [] then Some (fst vr) else None)"

text \<open>The compiled value without its descriptions.\<close>

fun erase :: "jsval \<Rightarrow> jsval" where
  "erase (JArr (v # rest)) =
     (case v of
        JArr vs \<Rightarrow> JArr (map erase vs)
      | JObj kvs \<Rightarrow> JObj (map (\<lambda>kv. (fst kv, erase (snd kv))) kvs)
      | _ \<Rightarrow> v)"
| "erase d = d"

section \<open>Values that survive the round trip\<close>

text \<open>
  A finite number other than negative zero: a safe integer, or another finite double,
  whose text is a number of JSON and neither \<^verbatim>\<open>-0\<close> nor the text of a safe integer.
\<close>

fun clean_number :: "jsnum \<Rightarrow> bool" where
  "clean_number (JInt i) = (\<bar>i\<bar> \<le> max_safe_integer)"
| "clean_number (JDouble t) = (number_text t \<and> number_value t = JDouble t)"
| "clean_number n = False"

text \<open>
  A clean compiled value is a pair of a value and a description: the description is
  absent or a string without a line feed; the value is \<^verbatim>\<open>null\<close>, a boolean, a finite
  number, a string of plain characters (no double quote, no backslash, no control
  character), a list of clean pairs, or a mapping of keys of plain characters to clean
  pairs.
\<close>

definition clean_comment :: "jsval \<Rightarrow> bool" where
  "clean_comment c = (case c of JUndefined \<Rightarrow> True | JStr s \<Rightarrow> newline \<notin> set s | _ \<Rightarrow> False)"

fun clean_jsonc :: "jsval \<Rightarrow> bool" where
  "clean_jsonc (JArr [v, c]) =
     (clean_comment c \<and>
      (case v of
         JNull \<Rightarrow> True
       | JBool b \<Rightarrow> True
       | JNum n \<Rightarrow> clean_number n
       | JStr s \<Rightarrow> list_all plain_char s
       | JArr vs \<Rightarrow> list_all clean_jsonc vs
       | JObj kvs \<Rightarrow> list_all (\<lambda>kv. list_all plain_char (fst kv) \<and> clean_jsonc (snd kv)) kvs
       | _ \<Rightarrow> False))"
| "clean_jsonc _ = False"

text \<open>The line comment and line break after a value, and the members of a list with the flag of the last one.\<close>

definition comment_only :: "jsval \<Rightarrow> string" where
  "comment_only c = (if truthy c then '' // '' @ to_string c @ [newline] else [newline])"

fun flagged :: "'a list \<Rightarrow> ('a \<times> bool) list" where
  "flagged [] = []"
| "flagged [x] = [(x, True)]"
| "flagged (x # y # ys) = (x, False) # flagged (y # ys)"

definition no_number_ahead :: "string \<Rightarrow> bool" where
  "no_number_ahead rest = (case rest of [] \<Rightarrow> True | c # _ \<Rightarrow> \<not> number_char c)"

text \<open>
  A pair reads back when its rendering is the text of its value, the comma of a member
  that is not the last, and its comment, and the reader finds the value without the
  descriptions at the head of that text, whatever follows it but a character of a
  number.
\<close>

definition reads_back :: "jsval \<Rightarrow> bool \<Rightarrow> nat \<Rightarrow> bool" where
  "reads_back x b ind =
     (\<exists>vt c. clean_comment c
        \<and> stringifyJsonc x b ind = Inr (vt @ (if b then [] else '','') @ comment_only c)
        \<and> (\<forall>rest. no_number_ahead rest \<longrightarrow> parse_json Value (vt @ rest) = Some (erase x, rest)))"

text \<open>
  A clean rule is one whose compiled value is clean: a usable default is a scalar of
  the kinds above or an empty container, the first enumerated value of a string rule
  and the keys of an object schema are of plain characters, the first enumerated
  value of a number rule is a finite number of that kind when \<^verbatim>\<open>isFinite\<close> accepts it,
  and the rules below it are clean.
\<close>

definition clean_default :: "jsval \<Rightarrow> bool" where
  "clean_default d =
     (case d of
        JNull \<Rightarrow> True
      | JBool b \<Rightarrow> True
      | JNum n \<Rightarrow> clean_number n
      | JStr s \<Rightarrow> list_all plain_char s
      | JArr vs \<Rightarrow> vs = []
      | JObj kvs \<Rightarrow> kvs = []
      | _ \<Rightarrow> False)"

fun clean_rule :: "PrimitiveRule \<Rightarrow> bool"
  and clean_position :: "ValidationRule \<Rightarrow> bool"
  and clean_schema :: "(string \<times> ValidationRule) list \<Rightarrow> bool"
where
  "clean_rule (StringRule d vs) =
     (if usable_default d then clean_default d
      else (case vs of Some (v # _) \<Rightarrow> list_all plain_char v | _ \<Rightarrow> True))"
| "clean_rule (NumberRule d vs i) =
     (if usable_default d then clean_default d
      else (case vs of Some (v # _) \<Rightarrow> isFinite (Some v) \<longrightarrow> clean_number v | _ \<Rightarrow> True))"
| "clean_rule (BooleanRule d) = (if usable_default d then clean_default d else True)"
| "clean_rule (ObjectRule d s n) =
     (if usable_default d then clean_default d
      else (case s of None \<Rightarrow> True | Some kvs \<Rightarrow> clean_schema kvs))"
| "clean_rule (ArrayRule d s n l) =
     (if usable_default d then clean_default d
      else (case n of None \<Rightarrow> True | Some nested \<Rightarrow> clean_position nested))"
| "clean_rule (OtherRule t d) = (if usable_default d then clean_default d else True)"
| "clean_position (Single r) = clean_rule r"
| "clean_position (Variants []) = True"
| "clean_position (Variants (r # rs)) = clean_rule r"
| "clean_schema [] = True"
| "clean_schema (kv # kvs) =
     (list_all plain_char (fst kv) \<and> clean_position (snd kv) \<and> clean_schema kvs)"

section \<open>Rules without an empty list of variants\<close>

text \<open>
  No rule position that \<^verbatim>\<open>parseRuleToJsonData\<close> reaches holds an empty list of variants:
  the position itself, the fields of an object schema, the elements of an array
  schema and, without one, the nested rule, each below a node without a
  usable default.
\<close>

fun reaches_no_empty :: "ValidationRule \<Rightarrow> bool"
  and rule_reaches_no_empty :: "PrimitiveRule \<Rightarrow> bool"
  and fields_reach_no_empty :: "(string \<times> ValidationRule) list \<Rightarrow> bool"
  and elements_reach_no_empty :: "ValidationRule list \<Rightarrow> bool"
where
  "reaches_no_empty (Single r) = rule_reaches_no_empty r"
| "reaches_no_empty (Variants []) = False"
| "reaches_no_empty (Variants (r # rs)) = rule_reaches_no_empty r"
| "rule_reaches_no_empty (ObjectRule d s n) =
     (usable_default d \<or> (case s of None \<Rightarrow> True | Some kvs \<Rightarrow> fields_reach_no_empty kvs))"
| "rule_reaches_no_empty (ArrayRule d s n l) =
     (usable_default d \<or>
      (case s of
         Some a \<Rightarrow> elements_reach_no_empty a
       | None \<Rightarrow> (case n of None \<Rightarrow> True | Some nested \<Rightarrow> reaches_no_empty nested)))"
| "rule_reaches_no_empty r = True"
| "fields_reach_no_empty [] = True"
| "fields_reach_no_empty (kv # kvs) = (reaches_no_empty (snd kv) \<and> fields_reach_no_empty kvs)"
| "elements_reach_no_empty [] = True"
| "elements_reach_no_empty (r # rs) = (reaches_no_empty r \<and> elements_reach_no_empty rs)"

section \<open>Properties of the rule compilers\<close>

text \<open>
  C1.  A rule node whose default is neither \<^verbatim>\<open>undefined\<close> nor a function compiles to
  that default, whatever its declared type and its other fields, both alone and as the
  first of a list of variants: \<^verbatim>\<open>parseRuleToJsonData\<close> returns the default itself, and
  \<^verbatim>\<open>_parseRuleToJsonc\<close> returns it as the value of its pair.
\<close>

theorem default_verbatim:
  assumes "usable_default (rule_default r)"
  shows "parseRuleToJsonData (Single r) = Inr (rule_default r)
       \<and> parseRuleToJsonData (Variants (r # rs)) = Inr (rule_default r)
       \<and> parseRuleToJsonc U (Single r)
           = Inr (JArr [rule_default r, opt_js (map_option JStr (parseDescription U (Single r)))])
       \<and> parseRuleToJsonc U (Variants (r # rs))
           = Inr (JArr [rule_default r,
                   opt_js (map_option JStr (parseDescription U (Variants (r # rs))))])"
  using assms by (cases r) simp_all

theorem default_verbatim_witness:
  "usable_default (rule_default (BooleanRule (JNum (JInt 42))))
   \<and> parseRuleToJsonData (Single (BooleanRule (JNum (JInt 42)))) = Inr (JNum (JInt 42))
   \<and> parseRuleToJsonData (Variants [StringRule (JNum (JInt 42)) None, BooleanRule JUndefined])
       = Inr (JNum (JInt 42))
   \<and> parseRuleToJsonData (Single (ArrayRule (JNum (JInt 42)) None None (Some 3)))
       = Inr (JNum (JInt 42))"
  using default_verbatim [of "BooleanRule (JNum (JInt 42))" "[]" "\<lambda>_. []"]
        default_verbatim [of "StringRule (JNum (JInt 42)) None" "[BooleanRule JUndefined]" "\<lambda>_. []"]
        default_verbatim [of "ArrayRule (JNum (JInt 42)) None None (Some 3)" "[]" "\<lambda>_. []"]
  by (simp add: usable_default_def)

lemma parseArraySchema_nth:
  "parseArraySchema a = Inr out \<Longrightarrow>
     length out = length a \<and> (\<forall>i<length a. parseRuleToJsonData (a ! i) = Inr (out ! i))"
proof (induction a arbitrary: out)
  case Nil
  then show ?case by simp
next
  case (Cons r rs)
  from Cons.prems obtain v vs where
    v: "parseRuleToJsonData r = Inr v" and vs: "parseArraySchema rs = Inr vs" and out: "out = v # vs"
    by (auto split: sum.splits)
  from Cons.IH [OF vs] have len: "length vs = length rs"
    and nth: "\<forall>i<length rs. parseRuleToJsonData (rs ! i) = Inr (vs ! i)" by simp_all
  show ?case
  proof (intro conjI allI impI)
    show "length out = length (r # rs)" using out len by simp
  next
    fix i assume "i < length (r # rs)"
    then show "parseRuleToJsonData ((r # rs) ! i) = Inr (out ! i)"
      using v nth out by (cases i) simp_all
  qed
qed

lemma parseArraySchema_total:
  "(\<forall>i<length a. \<exists>w. parseRuleToJsonData (a ! i) = Inr w) \<Longrightarrow> \<exists>out. parseArraySchema a = Inr out"
proof (induction a)
  case Nil
  then show ?case by simp
next
  case (Cons r rs)
  from Cons.prems have "\<exists>w. parseRuleToJsonData ((r # rs) ! 0) = Inr w" by blast
  then obtain w where w: "parseRuleToJsonData r = Inr w" by auto
  from Cons.prems have "\<forall>i<length rs. \<exists>w. parseRuleToJsonData (rs ! i) = Inr w" by fastforce
  from Cons.IH [OF this] obtain out where "parseArraySchema rs = Inr out" by blast
  with w show ?case by simp
qed

text \<open>
  C3.  An array rule without a usable default and with a schema list \<open>a\<close>: whenever it
  compiles, index \<open>i\<close> of the result is the compilation of \<open>a ! i\<close> for every
  \<open>i\<close> below the length of \<open>a\<close>, and every index from there on exists only when
  \<^verbatim>\<open>nested\<close> is given and \<^verbatim>\<open>length\<close> exceeds the length of \<open>a\<close>, and holds the
  \<^verbatim>\<open>nested\<close> rule node itself, uncompiled.
\<close>

theorem schema_array_elements:
  assumes "\<not> usable_default d"
    and "parseRuleToJsonData (Single (ArrayRule d (Some a) n l)) = Inr v"
  shows "\<exists>out. v = JArr out \<and> length a \<le> length out
           \<and> (\<forall>i<length a. parseRuleToJsonData (a ! i) = Inr (out ! i))
           \<and> (\<forall>i. length a \<le> i \<and> i < length out \<longrightarrow>
                 (\<exists>nested len. n = Some nested \<and> l = Some len \<and> int (length a) < len
                    \<and> out ! i = vrule_js nested))"
proof -
  from assms obtain out where out: "parseArraySchema a = Inr out"
    by (auto split: sum.splits)
  note nth = parseArraySchema_nth [OF out]
  define lim where "lim = (case (n, l) of
                              (Some nested, Some len) \<Rightarrow>
                                if len > int (length a) then nat len else length a
                            | _ \<Rightarrow> length a)"
  have v: "v = JArr (out @ replicate (lim - length a) (opt_js (map_option vrule_js n)))"
    using assms out by (simp add: lim_def)
  have fill: "\<exists>nested len. n = Some nested \<and> l = Some len \<and> int (length a) < len"
    if "length a < lim"
    using that by (auto simp: lim_def split: option.splits if_splits prod.splits)
  define res where "res = out @ replicate (lim - length a) (opt_js (map_option vrule_js n))"
  have len: "length a \<le> length res"
    using nth by (simp add: res_def)
  have low: "\<forall>i<length a. parseRuleToJsonData (a ! i) = Inr (res ! i)"
    using nth by (simp add: res_def nth_append)
  have high: "\<exists>nested len. n = Some nested \<and> l = Some len \<and> int (length a) < len
                \<and> res ! i = vrule_js nested"
    if i: "length a \<le> i \<and> i < length res" for i
  proof -
    from i nth have lt: "i - length a < lim - length a" by (auto simp: res_def)
    then have "length a < lim" by simp
    from fill [OF this] obtain nested len where
      n: "n = Some nested" and l: "l = Some len" and a: "int (length a) < len" by blast
    from lt have "replicate (lim - length a) (vrule_js nested) ! (i - length a) = vrule_js nested"
      by (rule nth_replicate)
    then have "res ! i = vrule_js nested"
      using i nth n by (simp add: res_def nth_append)
    with n l a show ?thesis by blast
  qed
  from v len low high show ?thesis
    unfolding res_def [symmetric] by blast
qed

theorem schema_array_elements_witness:
  "\<not> usable_default JUndefined
   \<and> parseRuleToJsonData (Single (ArrayRule JUndefined (Some [Single (BooleanRule JUndefined)])
         (Some (Single (StringRule JUndefined None))) (Some 3)))
       = Inr (JArr [JBool False, JObj [(''type'', JStr ''string'')], JObj [(''type'', JStr ''string'')]])
   \<and> (\<exists>out. JArr [JBool False, JObj [(''type'', JStr ''string'')], JObj [(''type'', JStr ''string'')]]
               = JArr out
          \<and> out ! 0 = JBool False
          \<and> out ! 1 = vrule_js (Single (StringRule JUndefined None))
          \<and> out ! 2 = vrule_js (Single (StringRule JUndefined None)))"
proof -
  have p1: "\<not> usable_default JUndefined" by (simp add: usable_default_def)
  have p2: "parseRuleToJsonData (Single (ArrayRule JUndefined (Some [Single (BooleanRule JUndefined)])
         (Some (Single (StringRule JUndefined None))) (Some 3)))
       = Inr (JArr [JBool False, JObj [(''type'', JStr ''string'')], JObj [(''type'', JStr ''string'')]])"
    by (simp add: usable_default_def defined_props_def numeral_3_eq_3)
  from schema_array_elements [OF p1 p2] obtain out where
    out: "JArr [JBool False, JObj [(''type'', JStr ''string'')], JObj [(''type'', JStr ''string'')]] = JArr out"
    and hi: "\<forall>i. length [Single (BooleanRule JUndefined)] \<le> i \<and> i < length out \<longrightarrow>
                 (\<exists>nested len. Some (Single (StringRule JUndefined None)) = Some nested
                    \<and> Some (3::int) = Some len
                    \<and> int (length [Single (BooleanRule JUndefined)]) < len
                    \<and> out ! i = vrule_js nested)"
    by blast
  from out have len: "length out = 3" by auto
  from hi len have "out ! 1 = vrule_js (Single (StringRule JUndefined None))"
    and "out ! 2 = vrule_js (Single (StringRule JUndefined None))"
    by auto
  moreover from out have "out ! 0 = JBool False" by auto
  ultimately show ?thesis using p1 p2 out by blast
qed

text \<open>
  \<^verbatim>\<open>parseRuleToJsonData\<close> returns exactly on the rules in which no position that it
  reaches holds an empty list of variants.
\<close>

lemma parseRuleToJsonData_returns:
  "(\<exists>v. parseRuleToJsonData rule = Inr v) = reaches_no_empty rule"
  "(\<exists>v. parsePrimitiveRule r = Inr v) = rule_reaches_no_empty r"
  "(\<exists>out. parseObjectSchema kvs = Inr out) = fields_reach_no_empty kvs"
  "(\<exists>out. parseArraySchema a = Inr out) = elements_reach_no_empty a"
proof (induction rule and r and kvs and a
    rule: parseRuleToJsonData_parsePrimitiveRule_parseObjectSchema_parseArraySchema.induct)
  case (7 d s n)
  then show ?case by (cases "usable_default d"; cases s) (auto split: sum.splits)
next
  case (8 d s n l)
  show ?case
  proof (cases "usable_default d")
    case True
    then show ?thesis by simp
  next
    case nd: False
    show ?thesis
    proof (cases s)
      case (Some a)
      from "8.IH"(2) [OF nd Some refl]
      have "(\<exists>out. parseArraySchema a = Inr out) = elements_reach_no_empty a" .
      with nd Some show ?thesis by (auto simp: Let_def split: sum.splits)
    next
      case None
      show ?thesis
      proof (cases n)
        case (Some nested)
        from "8.IH"(1) [OF nd None Some]
        have "(\<exists>v. parseRuleToJsonData nested = Inr v) = reaches_no_empty nested" .
        with nd None Some show ?thesis by (auto simp: Let_def split: sum.splits)
      next
        case nn: None
        with nd None show ?thesis by simp
      qed
    qed
  qed
next
  case (11 kv kvs)
  then show ?case by (auto split: sum.splits)
next
  case (13 r rs)
  then show ?case by (auto split: sum.splits)
qed (simp_all add: Let_def)

text \<open>
  C6.  \<^verbatim>\<open>parseRuleToJsonData\<close> raises on an empty list of variants, where the method
  \<^verbatim>\<open>_parseRuleToJsonc\<close> returns \<^verbatim>\<open>null\<close>; the method in its turn raises on a negative
  \<^verbatim>\<open>length\<close>, where \<^verbatim>\<open>parseRuleToJsonData\<close> returns the empty array.
\<close>

theorem empty_variants_raise:
  "parseRuleToJsonData (Variants []) = Inl TypeError
   \<and> parseRuleToJsonc U (Variants []) = Inr (JArr [JNull, JUndefined])
   \<and> parseRuleToJsonc U (Single (ArrayRule JUndefined None (Some (Single (BooleanRule JUndefined)))
         (Some (- 1)))) = Inl RangeError
   \<and> parseRuleToJsonData (Single (ArrayRule JUndefined None (Some (Single (BooleanRule JUndefined)))
         (Some (- 1)))) = Inr (JArr [])"
  by (simp add: usable_default_def array_ctor_def map_filter_def)

text \<open>
  C2 (as stated, it fails).  An explicit \<^verbatim>\<open>length\<close> does not always give the length of the
  compiled array: below a schema's length the schema's length wins, and a \<^verbatim>\<open>length\<close>
  of 0 counts as absent.
\<close>

theorem explicit_length_counterexample:
  "parseRuleToJsonData (Single (ArrayRule JUndefined
       (Some [Single (BooleanRule JUndefined), Single (BooleanRule JUndefined)])
       (Some (Single (BooleanRule JUndefined))) (Some 1)))
     = Inr (JArr [JBool False, JBool False])
   \<and> length [JBool False, JBool False] \<noteq> nat 1
   \<and> parseRuleToJsonData (Single (ArrayRule JUndefined None
       (Some (Single (BooleanRule JUndefined))) (Some 0)))
     = Inr (JArr [JBool False])
   \<and> length [JBool False] \<noteq> nat 0"
  by (simp add: usable_default_def)

text \<open>
  C2 (amended).  An array rule without a usable default, whenever it compiles:
  \<^verbatim>\<open>parseRuleToJsonData\<close> gives an array whose length is, with a schema list, the larger
  of the schema's length and \<^verbatim>\<open>length\<close> when \<^verbatim>\<open>nested\<close> and \<^verbatim>\<open>length\<close> are both given
  and the schema's length otherwise; without a schema and with \<^verbatim>\<open>nested\<close>, 1 when
  \<^verbatim>\<open>length\<close> is absent or 0 and \<^verbatim>\<open>length\<close> otherwise (no element when it is negative);
  and 0 with neither.  The method \<^verbatim>\<open>_parseRuleToJsonc\<close> ignores the schema: its array
  has that same \<^verbatim>\<open>length || 1\<close> elements when \<^verbatim>\<open>nested\<close> is a list of variants or one
  node that is neither an object nor an array, and none otherwise.
\<close>

theorem compiled_array_length:
  assumes "\<not> usable_default d"
  shows "(parseRuleToJsonData (Single (ArrayRule d s n l)) = Inr v \<longrightarrow>
           (\<exists>out. v = JArr out \<and> length out =
              (case s of
                 Some a \<Rightarrow>
                   (case (n, l) of
                      (Some nested, Some len) \<Rightarrow> max (length a) (nat len)
                    | _ \<Rightarrow> length a)
               | None \<Rightarrow>
                   (case n of
                      Some nested \<Rightarrow> (case l of None \<Rightarrow> 1 | Some len \<Rightarrow> if len = 0 then 1 else nat len)
                    | None \<Rightarrow> 0))))
       \<and> (parseRuleToJsonc U (Single (ArrayRule d s n l)) = Inr w \<longrightarrow>
           (\<exists>out c. w = JArr [JArr out, c] \<and> length out =
              (if primitive_nested n \<or> (\<exists>rs. n = Some (Variants rs))
               then (case l of None \<Rightarrow> 1 | Some len \<Rightarrow> if len = 0 then 1 else nat len)
               else 0)))"
proof (intro conjI impI)
  assume r: "parseRuleToJsonData (Single (ArrayRule d s n l)) = Inr v"
  show "\<exists>out. v = JArr out \<and> length out =
              (case s of
                 Some a \<Rightarrow>
                   (case (n, l) of
                      (Some nested, Some len) \<Rightarrow> max (length a) (nat len)
                    | _ \<Rightarrow> length a)
               | None \<Rightarrow>
                   (case n of
                      Some nested \<Rightarrow> (case l of None \<Rightarrow> 1 | Some len \<Rightarrow> if len = 0 then 1 else nat len)
                    | None \<Rightarrow> 0))"
  proof (cases s)
    case None
    with r assms show ?thesis
      by (auto split: option.splits sum.splits if_splits)
  next
    case (Some a)
    with r assms obtain out where out: "parseArraySchema a = Inr out"
      by (auto split: sum.splits)
    from parseArraySchema_nth [OF out] have len: "length out = length a" by simp
    from r assms Some out len show ?thesis
      by (auto split: option.splits if_splits)
  qed
next
  assume r: "parseRuleToJsonc U (Single (ArrayRule d s n l)) = Inr w"
  show "\<exists>out c. w = JArr [JArr out, c] \<and> length out =
              (if primitive_nested n \<or> (\<exists>rs. n = Some (Variants rs))
               then (case l of None \<Rightarrow> 1 | Some len \<Rightarrow> if len = 0 then 1 else nat len)
               else 0)"
  proof (cases n)
    case None
    with r assms show ?thesis by auto
  next
    case (Some nested)
    show ?thesis
    proof (cases nested)
      case (Single p)
      with r assms Some show ?thesis
        by (auto simp: array_ctor_def split: option.splits sum.splits if_splits)
    next
      case (Variants rs)
      with r assms Some show ?thesis
        by (auto simp: array_ctor_def split: option.splits sum.splits if_splits)
    qed
  qed
qed

theorem compiled_array_length_witness:
  "\<not> usable_default JUndefined
   \<and> parseRuleToJsonData (Single (ArrayRule JUndefined None (Some (Single (BooleanRule JUndefined)))
        (Some 3))) = Inr (JArr [JBool False, JBool False, JBool False])
   \<and> (\<exists>out. JArr [JBool False, JBool False, JBool False] = JArr out \<and> length out = 3)"
proof -
  have p1: "\<not> usable_default JUndefined" by (simp add: usable_default_def)
  have p2: "parseRuleToJsonData (Single (ArrayRule JUndefined None (Some (Single (BooleanRule JUndefined)))
        (Some 3))) = Inr (JArr [JBool False, JBool False, JBool False])"
    by (simp add: usable_default_def numeral_3_eq_3)
  from compiled_array_length [OF p1, of None "Some (Single (BooleanRule JUndefined))" "Some 3"
      "JArr [JBool False, JBool False, JBool False]"] p2
  have "\<exists>out. JArr [JBool False, JBool False, JBool False] = JArr out \<and> length out = 3"
    by simp
  with p1 p2 show ?thesis by blast
qed

section \<open>Properties of the serializer\<close>

text \<open>
  C9 (as stated, it fails).  At the root, the empty mapping is rendered as an opening
  brace, a line break and a closing brace, not as the two characters \<^verbatim>\<open>{}\<close>; likewise
  the empty sequence; and the rendering differs from one indentation level to the next.
\<close>

theorem empty_container_counterexample:
  "stringifyJsonc (JArr [JObj [], JUndefined]) True 0 = Inr [CHR ''{'', newline, CHR ''}'', newline]
   \<and> stringifyJsonc (JArr [JObj [], JUndefined]) True 0 \<noteq> Inr (''{}'' @ [newline])
   \<and> stringifyJsonc (JArr [JArr [], JUndefined]) True 0 = Inr [CHR ''['', newline, CHR '']'', newline]
   \<and> stringifyJsonc (JArr [JArr [], JUndefined]) True 0 \<noteq> Inr (''[]'' @ [newline])
   \<and> stringifyJsonc (JArr [JObj [], JUndefined]) True 1
       \<noteq> stringifyJsonc (JArr [JObj [], JUndefined]) True 0"
  by simp

text \<open>
  C9 (amended).  A compiled pair whose value is the empty mapping or the empty sequence
  is rendered as the opening bracket, a line break, one tab for each level of
  indentation and the closing bracket, followed by the comma of a member that is not
  the last, the description as a line comment when there is one, and a line break.
\<close>

theorem empty_container_rendering:
  "stringifyJsonc (JArr [JObj [], c]) is_last indent
     = Inr (CHR ''{'' # newline # replicate indent tab @ ''}''
            @ (if is_last then [] else '','')
            @ (if truthy c then '' // '' @ to_string c @ [newline] else [newline]))
   \<and> stringifyJsonc (JArr [JArr [], c]) is_last indent
     = Inr (CHR ''['' # newline # replicate indent tab @ '']''
            @ (if is_last then [] else '','')
            @ (if truthy c then '' // '' @ to_string c @ [newline] else [newline]))"
  by simp

section \<open>Properties of the request items\<close>

text \<open>
  In \<^verbatim>\<open>buildItems\<close> the item of an endpoint has the one header
  \<^verbatim>\<open>Content-Type: application/json\<close> when its body is the raw envelope, and no header
  otherwise.
\<close>

lemma endpoint_item_header:
  assumes "endpoint_item U S options e = Inr fi"
  shows "req_header (item_request (snd fi))
           = (if \<exists>t. req_body (item_request (snd fi)) = Some (RawBody t)
              then [content_type_json] else [])"
  using assms
  by (auto simp: endpoint_item_def Let_def split: sum.splits option.splits Body.splits)

text \<open>
  C4.  The method \<^verbatim>\<open>addEndpoints\<close> attaches the header to every item: to that of a
  GET endpoint, which has no body, and to that of a multipart POST endpoint, whose
  body is the field list.
\<close>

theorem addEndpoints_header_unconditional:
  "(case builder_item U None
           \<lparr>ep_path = ''/ping'', ep_method = ''GET'', ep_param = [], ep_paramOrder = [],
            ep_query = None, ep_bodyRule = None, ep_body = None, ep_bodyType = None\<rparr> of
      Inl err \<Rightarrow> False
    | Inr fi \<Rightarrow> req_header (item_request (snd fi)) = [content_type_json]
               \<and> req_body (item_request (snd fi)) = None)
   \<and> (case builder_item U None
           \<lparr>ep_path = ''/upload'', ep_method = ''POST'', ep_param = [], ep_paramOrder = [],
            ep_query = None, ep_bodyRule = None,
            ep_body = Some [(''name'', Single (StringRule JUndefined None))],
            ep_bodyType = Some ''multipart''\<rparr> of
      Inl err \<Rightarrow> False
    | Inr fi \<Rightarrow> req_header (item_request (snd fi)) = [content_type_json]
               \<and> req_body (item_request (snd fi))
                   = Some (FormdataBody [TextField ''name'' [] (parseDescription U (Single (StringRule JUndefined None)))]))"
  by (simp add: builder_item_def builder_parseBody_def body_envelope_def Let_def)

subsection \<open>The name of an item\<close>

lemma js_split_no_sep: "w \<in> set (js_split sep s) \<Longrightarrow> sep \<notin> set w"
proof (induction s arbitrary: w)
  case Nil
  then show ?case by simp
next
  case (Cons c cs)
  show ?case
  proof (cases "c = sep")
    case True
    with Cons show ?thesis by auto
  next
    case False
    show ?thesis
    proof (cases "js_split sep cs")
      case Nil
      with False Cons.prems show ?thesis by simp
    next
      case (Cons y ys)
      with False Cons.prems have "w = c # y \<or> w \<in> set ys" by simp
      moreover have "sep \<notin> set y" using Cons.IH [of y] Cons by simp
      moreover have "w \<in> set ys \<Longrightarrow> sep \<notin> set w" using Cons.IH [of w] Cons by simp
      ultimately show ?thesis using False by auto
    qed
  qed
qed

lemma slice0_subset: "set (slice0 m xs) \<subseteq> set xs"
  by (auto simp: slice0_def dest: in_set_takeD)

lemma parseLocation_folders:
  "f \<in> set (loc_folders (parseLocation U p param order m)) \<Longrightarrow> CHR ''/'' \<notin> set f"
  using slice0_subset [of m "js_split CHR ''/'' (drop 1 p)"] js_split_no_sep [of f "CHR ''/''" "drop 1 p"]
  by (auto simp: parseLocation_def Let_def)

lemma builder_parseLocation_folders:
  "f \<in> set (loc_folders (builder_parseLocation U p param order m)) \<Longrightarrow> CHR ''/'' \<notin> set f"
  using slice0_subset [of m "js_split CHR ''/'' (drop 1 p)"] js_split_no_sep [of f "CHR ''/''" "drop 1 p"]
  by (auto simp: builder_parseLocation_def Let_def)

lemma endpoint_item_name:
  assumes "endpoint_item U S options e = Inr fi"
  shows "item_name (snd fi)
           = CHR ''/'' # join ''/'' (map rewrite_segment (js_split CHR ''/'' (drop 1 (ep_path e))))"
    and "url_raw (req_url (item_request (snd fi))) = ''{{host}}'' @ item_name (snd fi)"
    and "f \<in> set (fst fi) \<Longrightarrow> CHR ''/'' \<notin> set f"
proof -
  from assms obtain bd where fi: "fi = (loc_folders (parseLocation U (ep_path e) (ep_param e) (ep_paramOrder e)
                       (case maxFolders options of None \<Rightarrow> 2 | Some m \<Rightarrow> m)),
       \<lparr>item_name = drop (length (hd (loc_host (parseLocation U (ep_path e) (ep_param e) (ep_paramOrder e)
                       (case maxFolders options of None \<Rightarrow> 2 | Some m \<Rightarrow> m)))))
                     (loc_url (parseLocation U (ep_path e) (ep_param e) (ep_paramOrder e)
                       (case maxFolders options of None \<Rightarrow> 2 | Some m \<Rightarrow> m))),
        item_request = bd\<rparr>)"
    and bd: "url_raw (req_url bd) = loc_url (parseLocation U (ep_path e) (ep_param e) (ep_paramOrder e)
                       (case maxFolders options of None \<Rightarrow> 2 | Some m \<Rightarrow> m))"
    by (auto simp: endpoint_item_def Let_def split: sum.splits)
  show "item_name (snd fi)
           = CHR ''/'' # join ''/'' (map rewrite_segment (js_split CHR ''/'' (drop 1 (ep_path e))))"
    using fi by (simp add: parseLocation_def Let_def)
  show "url_raw (req_url (item_request (snd fi))) = ''{{host}}'' @ item_name (snd fi)"
    using fi bd by (simp add: parseLocation_def Let_def)
  show "f \<in> set (fst fi) \<Longrightarrow> CHR ''/'' \<notin> set f"
    using fi parseLocation_folders by simp
qed

lemma builder_item_name:
  assumes "builder_item U auth e = Inr fi"
  shows "item_name (snd fi)
           = CHR ''/'' # join ''/'' (map rewrite_segment (js_split CHR ''/'' (drop 1 (ep_path e))))"
    and "url_raw (req_url (item_request (snd fi))) = ''{{host}}'' @ item_name (snd fi)"
    and "f \<in> set (fst fi) \<Longrightarrow> CHR ''/'' \<notin> set f"
proof -
  from assms obtain bd where fi: "fi = (loc_folders (builder_parseLocation U (ep_path e) (ep_param e) (ep_paramOrder e) 2),
       \<lparr>item_name = drop (length (hd (loc_host (builder_parseLocation U (ep_path e) (ep_param e) (ep_paramOrder e) 2))))
                     (loc_url (builder_parseLocation U (ep_path e) (ep_param e) (ep_paramOrder e) 2)),
        item_request = bd\<rparr>)"
    and bd: "url_raw (req_url bd) = loc_url (builder_parseLocation U (ep_path e) (ep_param e) (ep_paramOrder e) 2)"
    by (auto simp: builder_item_def Let_def split: sum.splits)
  show "item_name (snd fi)
           = CHR ''/'' # join ''/'' (map rewrite_segment (js_split CHR ''/'' (drop 1 (ep_path e))))"
    using fi by (simp add: builder_parseLocation_def Let_def)
  show "url_raw (req_url (item_request (snd fi))) = ''{{host}}'' @ item_name (snd fi)"
    using fi bd by (simp add: builder_parseLocation_def Let_def)
  show "f \<in> set (fst fi) \<Longrightarrow> CHR ''/'' \<notin> set f"
    using fi builder_parseLocation_folders by simp
qed

text \<open>
  C10.  In both builders, the item of an endpoint is named by the normalized URL without
  its \<^verbatim>\<open>{{host}}\<close> prefix: a slash followed by the rewritten segments of the path,
  joined by slashes.  No folder name of any endpoint contains a slash, so the name of
  an item is the name of no folder.
\<close>

theorem item_name_is_path:
  assumes "endpoint_item U S options e = Inr fi \<or> builder_item U auth e = Inr fi"
    and "endpoint_item U' S' options' e' = Inr fi' \<or> builder_item U' auth' e' = Inr fi'"
  shows "item_name (snd fi)
           = CHR ''/'' # join ''/'' (map rewrite_segment (js_split CHR ''/'' (drop 1 (ep_path e))))
       \<and> url_raw (req_url (item_request (snd fi))) = ''{{host}}'' @ item_name (snd fi)
       \<and> list_all (\<lambda>f. CHR ''/'' \<notin> set f) (fst fi')
       \<and> item_name (snd fi) \<notin> set (fst fi')"
proof -
  have name: "item_name (snd fi)
           = CHR ''/'' # join ''/'' (map rewrite_segment (js_split CHR ''/'' (drop 1 (ep_path e))))"
    using assms(1) endpoint_item_name(1) builder_item_name(1) by blast
  have url: "url_raw (req_url (item_request (snd fi))) = ''{{host}}'' @ item_name (snd fi)"
    using assms(1) endpoint_item_name(2) builder_item_name(2) by blast
  have folders: "\<And>f. f \<in> set (fst fi') \<Longrightarrow> CHR ''/'' \<notin> set f"
    using assms(2) endpoint_item_name(3) builder_item_name(3) by blast
  have "CHR ''/'' \<in> set (item_name (snd fi))" using name by simp
  with folders have "item_name (snd fi) \<notin> set (fst fi')" by blast
  with name url folders show ?thesis by (simp add: list_all_iff)
qed

lemma rewrite_id: "rewrite_segment '':id(x+)'' = '':id''"
  by (simp add: ident_start_def ident_char_def is_letter_def is_digit_def constraint_ok_def)

lemma orders_item:
  "endpoint_item U S no_options orders_endpoint
     = Inr ([''users'', '':id(x+)''],
         \<lparr>item_name = ''/users/:id/orders'',
          item_request =
            \<lparr>req_method = ''GET'', req_header = [], req_body = None,
             req_url = \<lparr>url_raw = ''{{host}}/users/:id/orders'', url_host = [''{{host}}''],
                        url_path = [''users'', '':id'', ''orders''],
                        url_variable = [], url_query = []\<rparr>,
             req_auth = None\<rparr>\<rparr>)"
  by (simp add: orders_endpoint_def no_options_def endpoint_item_def parseLocation_def
        parseBody_def parseQuery_def body_envelope_def Let_def slice0_def
        ident_start_def ident_char_def is_letter_def is_digit_def constraint_ok_def)

theorem item_name_is_path_witness:
  "(endpoint_item to_string to_string no_options orders_endpoint
      = Inr ([''users'', '':id(x+)''],
         \<lparr>item_name = ''/users/:id/orders'',
          item_request =
            \<lparr>req_method = ''GET'', req_header = [], req_body = None,
             req_url = \<lparr>url_raw = ''{{host}}/users/:id/orders'', url_host = [''{{host}}''],
                        url_path = [''users'', '':id'', ''orders''],
                        url_variable = [], url_query = []\<rparr>,
             req_auth = None\<rparr>\<rparr>))
   \<and> ''/users/:id/orders''
       = CHR ''/'' # join ''/'' (map rewrite_segment (js_split CHR ''/'' (drop 1 ''/users/:id(x+)/orders'')))
   \<and> ''/users/:id/orders'' \<notin> set [''users'', '':id(x+)'']"
proof -
  note p = orders_item [of to_string to_string]
  from item_name_is_path [OF disjI1 [OF p] disjI1 [OF p]] p
  show ?thesis by (simp add: orders_endpoint_def)
qed

subsection \<open>The folders of the tree\<close>

lemma folder_names_append [simp]: "folder_names (xs @ ys) = folder_names xs @ folder_names ys"
  by (induction xs rule: folder_names.induct) simp_all

lemma folder_names_subset: "set (folder_names xs) \<subseteq> node_name ` set xs"
  by (induction xs rule: folder_names.induct) auto

lemma find_None_folder: "List.find (\<lambda>fi. node_name fi = f) item = None \<Longrightarrow> f \<notin> set (folder_names item)"
  using folder_names_subset [of item] by (auto simp: find_None_iff)

lemma find_Some_member: "List.find P item = Some x \<Longrightarrow> x \<in> set item \<and> P x"
  by (induction item) (auto split: if_splits)

lemma replace_first_names:
  "node_name new = f \<Longrightarrow> map node_name (replace_first f new item) = map node_name item"
  by (induction item) auto

lemma replace_first_folder_names:
  "List.find (\<lambda>fi. node_name fi = f) item = Some (FolderItem n children) \<Longrightarrow>
   folder_names (replace_first f (FolderItem n children') item) = folder_names item"
proof (induction item rule: folder_names.induct)
  case 1
  then show ?case by simp
next
  case (2 m ch xs)
  then show ?case by (auto split: if_splits)
next
  case (3 it xs)
  then show ?case by (auto split: if_splits)
qed

lemma replace_first_all:
  "list_all Q item \<Longrightarrow> Q new \<Longrightarrow> list_all Q (replace_first f new item)"
  by (induction item) auto

lemma insert_item_invariant:
  assumes "folders_distinct item" and "list_all names_ok item"
    and "list_all (\<lambda>f. CHR ''/'' \<notin> set f) fs" and "CHR ''/'' \<in> set (item_name it)"
  shows "folders_distinct (insert_item fs (RequestItem it) item)
       \<and> list_all names_ok (insert_item fs (RequestItem it) item)"
  using assms
proof (induction fs arbitrary: item)
  case Nil
  then show ?case by (simp add: folders_distinct_def)
next
  case (Cons f fs)
  from Cons.prems have f: "CHR ''/'' \<notin> set f" and fs: "list_all (\<lambda>f. CHR ''/'' \<notin> set f) fs"
    by simp_all
  have fresh: "folders_distinct [] \<and> list_all names_ok []" by (simp add: folders_distinct_def)
  have new: "folders_distinct (item @ [FolderItem f (insert_item fs (RequestItem it) [])])
           \<and> list_all names_ok (item @ [FolderItem f (insert_item fs (RequestItem it) [])])"
    if "f \<notin> set (folder_names item)"
    using that Cons.prems(1,2) f Cons.IH [of "[]"] fresh fs Cons.prems(4)
    by (simp add: folders_distinct_def)
  show ?case
  proof (cases "List.find (\<lambda>fi. node_name fi = f) item")
    case None
    from find_None_folder [OF None] new None show ?thesis by simp
  next
    case (Some x)
    from find_Some_member [OF Some] have mem: "x \<in> set item" and nm: "node_name x = f" by simp_all
    show ?thesis
    proof (cases x)
      case (RequestItem it')
      with mem Cons.prems(2) have "CHR ''/'' \<in> set (item_name it')"
        by (auto simp: list_all_iff)
      with nm RequestItem f show ?thesis by simp
    next
      case (FolderItem n children)
      with mem Cons.prems(1,2) have ch: "folders_distinct children" "list_all names_ok children"
        by (auto simp: list_all_iff folders_distinct_def)
      from Cons.IH [OF ch fs Cons.prems(4)]
      have ih: "folders_distinct (insert_item fs (RequestItem it) children)"
        "list_all names_ok (insert_item fs (RequestItem it) children)" by simp_all
      from nm FolderItem have n: "n = f" by simp
      have ok: "no_duplicate_folders (FolderItem n (insert_item fs (RequestItem it) children))"
        "names_ok (FolderItem n (insert_item fs (RequestItem it) children))"
        using ih n f by (simp_all add: folders_distinct_def)
      have res: "insert_item (f # fs) (RequestItem it) item
                   = replace_first f (FolderItem n (insert_item fs (RequestItem it) children)) item"
        using Some FolderItem by simp
      have "folder_names (insert_item (f # fs) (RequestItem it) item) = folder_names item"
        unfolding res using replace_first_folder_names Some FolderItem by simp
      moreover have "list_all no_duplicate_folders (insert_item (f # fs) (RequestItem it) item)"
        unfolding res using replace_first_all [of no_duplicate_folders item] ok(1) Cons.prems(1)
        by (simp add: folders_distinct_def)
      moreover have "list_all names_ok (insert_item (f # fs) (RequestItem it) item)"
        unfolding res using replace_first_all [of names_ok item] ok(2) Cons.prems(2) by simp
      ultimately show ?thesis using Cons.prems(1) by (simp add: folders_distinct_def)
    qed
  qed
qed

lemma buildItems_loop_invariant:
  assumes "folders_distinct out" and "list_all names_ok out"
    and "buildItems_loop U S options es out = Inr tree"
  shows "folders_distinct tree \<and> list_all names_ok tree"
  using assms
proof (induction es arbitrary: out)
  case Nil
  then show ?case by simp
next
  case (Cons e es)
  from Cons.prems(3) obtain fi where fi: "endpoint_item U S options e = Inr fi"
    and rest: "buildItems_loop U S options es (insert_item (fst fi) (RequestItem (snd fi)) out) = Inr tree"
    by (auto split: sum.splits)
  have slash: "CHR ''/'' \<in> set (item_name (snd fi))"
    using endpoint_item_name(1) [OF fi] by simp
  have folders: "list_all (\<lambda>f. CHR ''/'' \<notin> set f) (fst fi)"
    using endpoint_item_name(3) [OF fi] by (simp add: list_all_iff)
  from insert_item_invariant [OF Cons.prems(1,2) folders slash]
  have "folders_distinct (insert_item (fst fi) (RequestItem (snd fi)) out)"
    and "list_all names_ok (insert_item (fst fi) (RequestItem (snd fi)) out)" by simp_all
  from Cons.IH [OF this rest] show ?case .
qed

lemma addEndpoints_invariant:
  assumes "folders_distinct item" and "list_all names_ok item"
    and "addEndpoints U auth es item = Inr tree"
  shows "folders_distinct tree \<and> list_all names_ok tree"
  using assms
proof (induction es arbitrary: item)
  case Nil
  then show ?case by simp
next
  case (Cons e es)
  from Cons.prems(3) obtain fi where fi: "builder_item U auth e = Inr fi"
    and rest: "addEndpoints U auth es (insert_item (fst fi) (RequestItem (snd fi)) item) = Inr tree"
    by (auto split: sum.splits)
  have slash: "CHR ''/'' \<in> set (item_name (snd fi))"
    using builder_item_name(1) [OF fi] by simp
  have folders: "list_all (\<lambda>f. CHR ''/'' \<notin> set f) (fst fi)"
    using builder_item_name(3) [OF fi] by (simp add: list_all_iff)
  from insert_item_invariant [OF Cons.prems(1,2) folders slash]
  have "folders_distinct (insert_item (fst fi) (RequestItem (snd fi)) item)"
    and "list_all names_ok (insert_item (fst fi) (RequestItem (snd fi)) item)" by simp_all
  from Cons.IH [OF this rest] show ?case .
qed

lemma insert_item_level:
  "(\<exists>n children. List.find (\<lambda>fi. node_name fi = f) sibs = Some (FolderItem n children) \<and> n = f
      \<and> insert_item (f # fs) leaf sibs
          = replace_first f (FolderItem n (insert_item fs leaf children)) sibs
      \<and> map node_name (insert_item (f # fs) leaf sibs) = map node_name sibs)
   \<or> insert_item (f # fs) leaf sibs = sibs @ [FolderItem f (insert_item fs leaf [])]"
proof (cases "List.find (\<lambda>fi. node_name fi = f) sibs")
  case None
  then show ?thesis by simp
next
  case (Some x)
  show ?thesis
  proof (cases x)
    case (RequestItem it)
    with Some show ?thesis by simp
  next
    case (FolderItem m ch)
    from find_Some_member [OF Some] FolderItem have m: "m = f" by simp
    then have "map node_name (replace_first f (FolderItem m (insert_item fs leaf ch)) sibs)
                 = map node_name sibs"
      by (simp add: replace_first_names)
    with Some FolderItem m show ?thesis by simp
  qed
qed

lemma insert_item_shared:
  "insert_item [f1, f2] l2 (insert_item [f1, f2] l1 []) = [FolderItem f1 [FolderItem f2 [l1, l2]]]"
  by simp

lemma requests_append [simp]: "requests (xs @ ys) = requests xs @ requests ys"
  by (induction xs rule: requests.induct) simp_all

lemma find_append_name:
  "List.find P (xs @ ys) = (case List.find P xs of None \<Rightarrow> List.find P ys | Some x \<Rightarrow> Some x)"
  by (induction xs) simp_all

lemma replace_first_requests:
  "List.find (\<lambda>fi. node_name fi = f) item = Some (FolderItem n children) \<Longrightarrow>
   requests (replace_first f (FolderItem n' children') item) = requests item"
proof (induction item rule: requests.induct)
  case 1
  then show ?case by simp
next
  case (2 m ch xs)
  then show ?case by (auto split: if_splits)
next
  case (3 it xs)
  then show ?case by (auto split: if_splits)
qed

lemma find_replace_first_same:
  "List.find (\<lambda>fi. node_name fi = f) item = Some x \<Longrightarrow> node_name new = f \<Longrightarrow>
   List.find (\<lambda>fi. node_name fi = f) (replace_first f new item) = Some new"
  by (induction item) (auto split: if_splits)

lemma find_replace_first_other:
  "node_name new = f \<Longrightarrow> g \<noteq> f \<Longrightarrow>
   List.find (\<lambda>fi. node_name fi = g) (replace_first f new item)
     = List.find (\<lambda>fi. node_name fi = g) item"
  by (induction item) auto

lemma requests_at_Nil [simp]: "requests_at fs [] = []"
  by (cases fs) (simp_all add: requests_at_def)

lemma requests_at_empty [simp]: "requests_at [] item = requests item"
  by (simp add: requests_at_def)

lemma requests_at_Cons:
  "requests_at (f # fs) item =
     (case List.find (\<lambda>fi. node_name fi = f) item of
        Some (FolderItem n children) \<Rightarrow> requests_at fs children
      | _ \<Rightarrow> [])"
  by (simp add: requests_at_def split: option.splits Node.splits)

lemma requests_at_insert:
  assumes "list_all names_ok item" and "list_all (\<lambda>f. CHR ''/'' \<notin> set f) fs"
    and "CHR ''/'' \<in> set (item_name it)"
  shows "requests_at gs (insert_item fs (RequestItem it) item)
           = requests_at gs item @ (if gs = fs then [it] else [])"
  using assms
proof (induction fs arbitrary: item gs)
  case Nil
  show ?case
  proof (cases gs)
    case Nil
    then show ?thesis by simp
  next
    case (Cons g gs')
    show ?thesis
    proof (cases "List.find (\<lambda>fi. node_name fi = g) item")
      case None
      with Cons show ?thesis
        by (simp add: requests_at_Cons find_append_name)
    next
      case (Some x)
      with Cons show ?thesis
        by (simp add: requests_at_Cons find_append_name)
    qed
  qed
next
  case (Cons f fs)
  from Cons.prems have f: "CHR ''/'' \<notin> set f" and fs: "list_all (\<lambda>f. CHR ''/'' \<notin> set f) fs"
    by simp_all
  note it = Cons.prems(3)
  let ?leaf = "RequestItem it"
  show ?case
  proof (cases "List.find (\<lambda>fi. node_name fi = f) item")
    case None
    then have ins: "insert_item (f # fs) ?leaf item = item @ [FolderItem f (insert_item fs ?leaf [])]"
      by simp
    show ?thesis
    proof (cases gs)
      case Nil
      with ins show ?thesis by simp
    next
      case (Cons g gs')
      show ?thesis
      proof (cases "g = f")
        case True
        have "requests_at gs' (insert_item fs ?leaf []) = (if gs' = fs then [it] else [])"
          using Cons.IH [of "[]" gs'] fs it by simp
        with True Cons None ins show ?thesis
          by (simp add: requests_at_Cons find_append_name)
      next
        case False
        with Cons ins show ?thesis
          by (simp add: requests_at_Cons find_append_name split: option.splits)
      qed
    qed
  next
    case (Some x)
    from find_Some_member [OF Some] have mem: "x \<in> set item" and nm: "node_name x = f" by simp_all
    show ?thesis
    proof (cases x)
      case (RequestItem it')
      with mem Cons.prems(1) have "CHR ''/'' \<in> set (item_name it')"
        by (auto simp: list_all_iff)
      with nm RequestItem f show ?thesis by simp
    next
      case (FolderItem n children)
      with nm have n: "n = f" by simp
      from FolderItem mem Cons.prems(1) have ch: "list_all names_ok children"
        by (auto simp: list_all_iff)
      have ins: "insert_item (f # fs) ?leaf item
                   = replace_first f (FolderItem f (insert_item fs ?leaf children)) item"
        using Some FolderItem n by simp
      show ?thesis
      proof (cases gs)
        case Nil
        with ins Some FolderItem show ?thesis
          by (simp add: replace_first_requests)
      next
        case (Cons g gs')
        show ?thesis
        proof (cases "g = f")
          case True
          have "requests_at gs' (insert_item fs ?leaf children)
                  = requests_at gs' children @ (if gs' = fs then [it] else [])"
            using Cons.IH [OF ch fs it] .
          moreover have "List.find (\<lambda>fi. node_name fi = f)
                           (replace_first f (FolderItem f (insert_item fs ?leaf children)) item)
                         = Some (FolderItem f (insert_item fs ?leaf children))"
            using find_replace_first_same [OF Some] by simp
          ultimately show ?thesis
            using True Cons ins Some FolderItem n by (simp add: requests_at_Cons)
        next
          case False
          have "List.find (\<lambda>fi. node_name fi = g)
                  (replace_first f (FolderItem f (insert_item fs ?leaf children)) item)
                = List.find (\<lambda>fi. node_name fi = g) item"
            using find_replace_first_other [of _ f g] False by simp
          with False Cons ins show ?thesis by (simp add: requests_at_Cons)
        qed
      qed
    qed
  qed
qed

lemma leaves_replace_first:
  "List.find (\<lambda>fi. node_name fi = f) item = Some x \<Longrightarrow>
   length (concat (map leaves (replace_first f new item))) + length (leaves x)
     = length (concat (map leaves item)) + length (leaves new)"
  by (induction item) (auto split: if_splits)

lemma leaves_insert:
  "length (concat (map leaves (insert_item fs (RequestItem it) item)))
     = Suc (length (concat (map leaves item)))"
proof (induction fs arbitrary: item)
  case Nil
  then show ?case by simp
next
  case (Cons f fs)
  show ?case
  proof (cases "List.find (\<lambda>fi. node_name fi = f) item")
    case None
    with Cons.IH [of "[]"] show ?thesis by simp
  next
    case (Some x)
    show ?thesis
    proof (cases x)
      case (RequestItem it')
      with Some Cons.IH [of "[]"] show ?thesis by simp
    next
      case (FolderItem n children)
      from leaves_replace_first [OF Some, of "FolderItem n (insert_item fs (RequestItem it) children)"]
        Cons.IH [of children] FolderItem Some
      show ?thesis by simp
    qed
  qed
qed


lemma buildItems_loop_snoc:
  "buildItems_loop U S options (es @ [e]) out =
     (case buildItems_loop U S options es out of
        Inl err \<Rightarrow> Inl err
      | Inr prev \<Rightarrow>
          (case endpoint_item U S options e of
             Inl err \<Rightarrow> Inl err
           | Inr fi \<Rightarrow> Inr (insert_item (fst fi) (RequestItem (snd fi)) prev)))"
  by (induction es arbitrary: out) (auto split: sum.splits)

lemma addEndpoints_snoc:
  "addEndpoints U auth (es @ [e]) item =
     (case addEndpoints U auth es item of
        Inl err \<Rightarrow> Inl err
      | Inr prev \<Rightarrow>
          (case builder_item U auth e of
             Inl err \<Rightarrow> Inl err
           | Inr fi \<Rightarrow> Inr (insert_item (fst fi) (RequestItem (snd fi)) prev)))"
  by (induction es arbitrary: item) (auto split: sum.splits)

lemma addEndpoints_append:
  "addEndpoints U auth (es @ es') item =
     (case addEndpoints U auth es item of
        Inl err \<Rightarrow> Inl err
      | Inr tree \<Rightarrow> addEndpoints U auth es' tree)"
  by (induction es arbitrary: item) (auto split: sum.splits)

lemma buildItems_loop_requests:
  assumes "folders_distinct out" and "list_all names_ok out"
    and "buildItems_loop U S options es out = Inr tree"
  shows "\<exists>items. map (endpoint_item U S options) es = map Inr items
       \<and> length (concat (map leaves tree)) = length (concat (map leaves out)) + length es
       \<and> (\<forall>gs. requests_at gs tree
                  = requests_at gs out @ map snd (filter (\<lambda>fi. fst fi = gs) items))"
  using assms
proof (induction es arbitrary: out)
  case Nil
  then show ?case by simp
next
  case (Cons e es)
  from Cons.prems(3) obtain fi where fi: "endpoint_item U S options e = Inr fi"
    and rest: "buildItems_loop U S options es (insert_item (fst fi) (RequestItem (snd fi)) out) = Inr tree"
    by (auto split: sum.splits)
  let ?next = "insert_item (fst fi) (RequestItem (snd fi)) out"
  have slash: "CHR ''/'' \<in> set (item_name (snd fi))"
    using endpoint_item_name(1) [OF fi] by simp
  have folders: "list_all (\<lambda>f. CHR ''/'' \<notin> set f) (fst fi)"
    using endpoint_item_name(3) [OF fi] by (simp add: list_all_iff)
  from insert_item_invariant [OF Cons.prems(1,2) folders slash]
  have inv: "folders_distinct ?next" "list_all names_ok ?next" by simp_all
  from Cons.IH [OF inv rest] obtain items where
    items: "map (endpoint_item U S options) es = map Inr items"
    and len: "length (concat (map leaves tree)) = length (concat (map leaves ?next)) + length es"
    and req: "\<And>gs. requests_at gs tree
                = requests_at gs ?next @ map snd (filter (\<lambda>fi. fst fi = gs) items)"
    by blast
  have "map (endpoint_item U S options) (e # es) = map Inr (fi # items)"
    using fi items by simp
  moreover have "length (concat (map leaves tree)) = length (concat (map leaves out)) + length (e # es)"
    using len leaves_insert [of "fst fi" "snd fi" out] by simp
  moreover have "requests_at gs tree
                   = requests_at gs out @ map snd (filter (\<lambda>fi. fst fi = gs) (fi # items))" for gs
    using req [of gs] requests_at_insert [OF Cons.prems(2) folders slash, of gs] by auto
  ultimately show ?case by blast
qed

lemma addEndpoints_requests:
  assumes "folders_distinct item" and "list_all names_ok item"
    and "addEndpoints U auth es item = Inr tree"
  shows "\<exists>items. map (builder_item U auth) es = map Inr items
       \<and> length (concat (map leaves tree)) = length (concat (map leaves item)) + length es
       \<and> (\<forall>gs. requests_at gs tree
                  = requests_at gs item @ map snd (filter (\<lambda>fi. fst fi = gs) items))"
  using assms
proof (induction es arbitrary: item)
  case Nil
  then show ?case by simp
next
  case (Cons e es)
  from Cons.prems(3) obtain fi where fi: "builder_item U auth e = Inr fi"
    and rest: "addEndpoints U auth es (insert_item (fst fi) (RequestItem (snd fi)) item) = Inr tree"
    by (auto split: sum.splits)
  let ?next = "insert_item (fst fi) (RequestItem (snd fi)) item"
  have slash: "CHR ''/'' \<in> set (item_name (snd fi))"
    using builder_item_name(1) [OF fi] by simp
  have folders: "list_all (\<lambda>f. CHR ''/'' \<notin> set f) (fst fi)"
    using builder_item_name(3) [OF fi] by (simp add: list_all_iff)
  from insert_item_invariant [OF Cons.prems(1,2) folders slash]
  have inv: "folders_distinct ?next" "list_all names_ok ?next" by simp_all
  from Cons.IH [OF inv rest] obtain items where
    items: "map (builder_item U auth) es = map Inr items"
    and len: "length (concat (map leaves tree)) = length (concat (map leaves ?next)) + length es"
    and req: "\<And>gs. requests_at gs tree
                = requests_at gs ?next @ map snd (filter (\<lambda>fi. fst fi = gs) items)"
    by blast
  have "map (builder_item U auth) (e # es) = map Inr (fi # items)"
    using fi items by simp
  moreover have "length (concat (map leaves tree)) = length (concat (map leaves item)) + length (e # es)"
    using len leaves_insert [of "fst fi" "snd fi" item] by simp
  moreover have "requests_at gs tree
                   = requests_at gs item @ map snd (filter (\<lambda>fi. fst fi = gs) (fi # items))" for gs
    using req [of gs] requests_at_insert [OF Cons.prems(2) folders slash, of gs] by auto
  ultimately show ?case by blast
qed

text \<open>
  C5.  \<open>build\<close> is \<^verbatim>\<open>buildItems\<close>, or \<^verbatim>\<open>addEndpoints\<close> on an empty collection, and
  \<open>compile\<close> what that builder computes for one endpoint, its folders and its item.
  When the builder returns a tree for a sequence of endpoints:
  no two sibling folders of the tree have the same name, at any level;
  the tree has as many requests as there are endpoints;
  every endpoint compiles, and the requests at the end of the walk over a folder list
  (at each level the first sibling of that name, a folder) are the items of the
  endpoints with exactly that folder list, in the order of the endpoints;
  the tree after the last endpoint is the insertion of its item, along its folders,
  into the tree of the endpoints before it;
  the tree of two endpoints with the same two folders is one folder holding one folder
  holding the two requests.
  One level of an insertion either finds the first sibling of the folder's name, a
  folder, and goes on inside it, leaving the names of the siblings as they were, or
  appends exactly one new folder of that name.
\<close>

theorem sibling_folders_distinct:
  assumes "build = (\<lambda>es. buildItems U S es options) \<and> compile = endpoint_item U S options
           \<or> build = (\<lambda>es. addEndpoints U auth es []) \<and> compile = builder_item U auth"
    and "build endpoints = Inr tree"
  shows "folders_distinct tree
       \<and> length (concat (map leaves tree)) = length endpoints
       \<and> (\<exists>items. map compile endpoints = map Inr items
            \<and> (\<forall>gs. requests_at gs tree = map snd (filter (\<lambda>fi. fst fi = gs) items)))
       \<and> (\<forall>es e. endpoints = es @ [e] \<longrightarrow>
            (\<exists>prev gs it. build es = Inr prev \<and> compile e = Inr (gs, it)
               \<and> tree = insert_item gs (RequestItem it) prev))
       \<and> (\<forall>e1 e2 f1 f2 it1 it2.
            endpoints = [e1, e2] \<and> compile e1 = Inr ([f1, f2], it1)
              \<and> compile e2 = Inr ([f1, f2], it2) \<longrightarrow>
            tree = [FolderItem f1 [FolderItem f2 [RequestItem it1, RequestItem it2]]])
       \<and> ((\<exists>n children. List.find (\<lambda>fi. node_name fi = f) sibs = Some (FolderItem n children)
              \<and> n = f
              \<and> insert_item (f # fs) leaf sibs
                  = replace_first f (FolderItem n (insert_item fs leaf children)) sibs
              \<and> map node_name (insert_item (f # fs) leaf sibs) = map node_name sibs)
           \<or> insert_item (f # fs) leaf sibs = sibs @ [FolderItem f (insert_item fs leaf [])])"
proof -
  have empty: "folders_distinct []" "list_all names_ok []"
    by (simp_all add: folders_distinct_def)
  have snoc: "\<exists>prev gs it. build es = Inr prev \<and> compile e = Inr (gs, it)
               \<and> tree = insert_item gs (RequestItem it) prev"
    if "endpoints = es @ [e]" for es e
    using assms
  proof (elim disjE conjE)
    assume b: "build = (\<lambda>es. buildItems U S es options)" and c: "compile = endpoint_item U S options"
    from assms(2) that b
    have "buildItems_loop U S options (es @ [e]) [] = Inr tree" by (simp add: buildItems_def)
    then show ?thesis
      unfolding buildItems_loop_snoc b c buildItems_def
      by (cases "buildItems_loop U S options es []"; cases "endpoint_item U S options e") auto
  next
    assume b: "build = (\<lambda>es. addEndpoints U auth es [])" and c: "compile = builder_item U auth"
    from assms(2) that b
    have "addEndpoints U auth (es @ [e]) [] = Inr tree" by simp
    then show ?thesis
      unfolding addEndpoints_snoc b c
      by (cases "addEndpoints U auth es []"; cases "builder_item U auth e") auto
  qed
  have two: "tree = [FolderItem f1 [FolderItem f2 [RequestItem it1, RequestItem it2]]]"
    if "endpoints = [e1, e2] \<and> compile e1 = Inr ([f1, f2], it1) \<and> compile e2 = Inr ([f1, f2], it2)"
    for e1 e2 f1 f2 it1 it2
    using assms that by (auto simp: buildItems_def)
  from assms have main: "folders_distinct tree
       \<and> length (concat (map leaves tree)) = length endpoints
       \<and> (\<exists>items. map compile endpoints = map Inr items
            \<and> (\<forall>gs. requests_at gs tree = map snd (filter (\<lambda>fi. fst fi = gs) items)))"
  proof (elim disjE conjE)
    assume b: "build = (\<lambda>es. buildItems U S es options)" and c: "compile = endpoint_item U S options"
    with assms(2) have t: "buildItems_loop U S options endpoints [] = Inr tree"
      by (simp add: buildItems_def)
    from buildItems_loop_requests [OF empty t] obtain items where
      "map (endpoint_item U S options) endpoints = map Inr items"
      "length (concat (map leaves tree)) = length endpoints"
      "\<And>gs. requests_at gs tree = map snd (filter (\<lambda>fi. fst fi = gs) items)"
      by auto
    with buildItems_loop_invariant [OF empty t] show ?thesis unfolding c by blast
  next
    assume b: "build = (\<lambda>es. addEndpoints U auth es [])" and c: "compile = builder_item U auth"
    with assms(2) have t: "addEndpoints U auth endpoints [] = Inr tree" by simp
    from addEndpoints_requests [OF empty t] obtain items where
      "map (builder_item U auth) endpoints = map Inr items"
      "length (concat (map leaves tree)) = length endpoints"
      "\<And>gs. requests_at gs tree = map snd (filter (\<lambda>fi. fst fi = gs) items)"
      by auto
    with addEndpoints_invariant [OF empty t] show ?thesis unfolding c by blast
  qed
  from main snoc two insert_item_level [of f sibs fs leaf]
  show ?thesis by blast
qed

lemma profile_item:
  "endpoint_item U S no_options profile_endpoint
     = Inr ([''users'', '':id(x+)''],
         \<lparr>item_name = ''/users/:id/profile'',
          item_request =
            \<lparr>req_method = ''GET'', req_header = [], req_body = None,
             req_url = \<lparr>url_raw = ''{{host}}/users/:id/profile'', url_host = [''{{host}}''],
                        url_path = [''users'', '':id'', ''profile''],
                        url_variable = [], url_query = []\<rparr>,
             req_auth = None\<rparr>\<rparr>)"
  by (simp add: profile_endpoint_def no_options_def endpoint_item_def parseLocation_def
        parseBody_def parseQuery_def body_envelope_def Let_def slice0_def
        ident_start_def ident_char_def is_letter_def is_digit_def constraint_ok_def)

lemma orders_builder_item:
  "builder_item U None orders_endpoint
     = Inr ([''users'', '':id(x+)''],
         \<lparr>item_name = ''/users/:id/orders'',
          item_request =
            \<lparr>req_method = ''GET'', req_header = [content_type_json], req_body = None,
             req_url = \<lparr>url_raw = ''{{host}}/users/:id/orders'', url_host = [''{{host}}''],
                        url_path = [''users'', '':id'', ''orders''],
                        url_variable = [], url_query = []\<rparr>,
             req_auth = None\<rparr>\<rparr>)"
  by (simp add: orders_endpoint_def builder_item_def builder_parseLocation_def
        builder_parseBody_def builder_parseQuery_def body_envelope_def Let_def slice0_def
        ident_start_def ident_char_def is_letter_def is_digit_def constraint_ok_def)

lemma profile_builder_item:
  "builder_item U None profile_endpoint
     = Inr ([''users'', '':id(x+)''],
         \<lparr>item_name = ''/users/:id/profile'',
          item_request =
            \<lparr>req_method = ''GET'', req_header = [content_type_json], req_body = None,
             req_url = \<lparr>url_raw = ''{{host}}/users/:id/profile'', url_host = [''{{host}}''],
                        url_path = [''users'', '':id'', ''profile''],
                        url_variable = [], url_query = []\<rparr>,
             req_auth = None\<rparr>\<rparr>)"
  by (simp add: profile_endpoint_def builder_item_def builder_parseLocation_def
        builder_parseBody_def builder_parseQuery_def body_envelope_def Let_def slice0_def
        ident_start_def ident_char_def is_letter_def is_digit_def constraint_ok_def)

theorem sibling_folders_distinct_witness:
  "(\<exists>tree. buildItems to_string to_string [orders_endpoint, profile_endpoint] no_options = Inr tree
     \<and> map outline tree
         = [Named ''users'' [Named '':id(x+)''
              [Named ''/users/:id/orders'' [], Named ''/users/:id/profile'' []]]]
     \<and> folders_distinct tree
     \<and> length (concat (map leaves tree)) = 2
     \<and> map item_name (requests_at [''users'', '':id(x+)''] tree)
         = [''/users/:id/orders'', ''/users/:id/profile''])
   \<and> (\<exists>tree. addEndpoints to_string None [orders_endpoint, profile_endpoint] [] = Inr tree
     \<and> map outline tree
         = [Named ''users'' [Named '':id(x+)''
              [Named ''/users/:id/orders'' [], Named ''/users/:id/profile'' []]]]
     \<and> folders_distinct tree
     \<and> length (concat (map leaves tree)) = 2
     \<and> map item_name (requests_at [''users'', '':id(x+)''] tree)
         = [''/users/:id/orders'', ''/users/:id/profile''])"
proof (rule conjI)
  obtain tree where
    tree: "buildItems to_string to_string [orders_endpoint, profile_endpoint] no_options = Inr tree"
    and out: "map outline tree = [Named ''users'' [Named '':id(x+)''
              [Named ''/users/:id/orders'' [], Named ''/users/:id/profile'' []]]]"
    by (simp add: buildItems_def orders_item profile_item)
  note th = sibling_folders_distinct
    [where build = "\<lambda>es. buildItems to_string to_string es no_options"
       and compile = "endpoint_item to_string to_string no_options"
       and U = to_string and S = to_string and options = no_options
       and endpoints = "[orders_endpoint, profile_endpoint]" and tree = tree,
     OF disjI1 [OF conjI [OF refl refl]] tree]
  from th have fd: "folders_distinct tree" by (rule conjunct1)
  from th have len: "length (concat (map leaves tree)) = 2" by simp
  from th [THEN conjunct2, THEN conjunct2, THEN conjunct1] obtain items where
    items: "map (endpoint_item to_string to_string no_options) [orders_endpoint, profile_endpoint]
              = map Inr items"
    and req: "\<And>gs. requests_at gs tree = map snd (filter (\<lambda>fi. fst fi = gs) items)"
    by blast
  from items obtain a b where ab: "items = [a, b]"
    and a: "endpoint_item to_string to_string no_options orders_endpoint = Inr a"
    and b: "endpoint_item to_string to_string no_options profile_endpoint = Inr b"
    by (cases items; cases "tl items") auto
  from a have fa: "fst a = [''users'', '':id(x+)'']" and na: "item_name (snd a) = ''/users/:id/orders''"
    unfolding orders_item by auto
  from b have fb: "fst b = [''users'', '':id(x+)'']" and nb: "item_name (snd b) = ''/users/:id/profile''"
    unfolding profile_item by auto
  have "map item_name (requests_at [''users'', '':id(x+)''] tree)
          = [''/users/:id/orders'', ''/users/:id/profile'']"
    unfolding req ab using fa fb na nb by simp
  with tree out fd len
  show "\<exists>tree. buildItems to_string to_string [orders_endpoint, profile_endpoint] no_options = Inr tree
     \<and> map outline tree
         = [Named ''users'' [Named '':id(x+)''
              [Named ''/users/:id/orders'' [], Named ''/users/:id/profile'' []]]]
     \<and> folders_distinct tree
     \<and> length (concat (map leaves tree)) = 2
     \<and> map item_name (requests_at [''users'', '':id(x+)''] tree)
         = [''/users/:id/orders'', ''/users/:id/profile'']"
    by (intro exI [of _ tree] conjI)
next
  obtain tree where
    tree: "addEndpoints to_string None [orders_endpoint, profile_endpoint] [] = Inr tree"
    and out: "map outline tree = [Named ''users'' [Named '':id(x+)''
              [Named ''/users/:id/orders'' [], Named ''/users/:id/profile'' []]]]"
    by (simp add: orders_builder_item profile_builder_item)
  note th = sibling_folders_distinct
    [where build = "\<lambda>es. addEndpoints to_string None es []"
       and compile = "builder_item to_string None"
       and U = to_string and auth = None
       and endpoints = "[orders_endpoint, profile_endpoint]" and tree = tree,
     OF disjI2 [OF conjI [OF refl refl]] tree]
  from th have fd: "folders_distinct tree" by (rule conjunct1)
  from th have len: "length (concat (map leaves tree)) = 2" by simp
  from th [THEN conjunct2, THEN conjunct2, THEN conjunct1] obtain items where
    items: "map (builder_item to_string None) [orders_endpoint, profile_endpoint]
              = map Inr items"
    and req: "\<And>gs. requests_at gs tree = map snd (filter (\<lambda>fi. fst fi = gs) items)"
    by blast
  from items obtain a b where ab: "items = [a, b]"
    and a: "builder_item to_string None orders_endpoint = Inr a"
    and b: "builder_item to_string None profile_endpoint = Inr b"
    by (cases items; cases "tl items") auto
  from a have fa: "fst a = [''users'', '':id(x+)'']" and na: "item_name (snd a) = ''/users/:id/orders''"
    unfolding orders_builder_item by auto
  from b have fb: "fst b = [''users'', '':id(x+)'']" and nb: "item_name (snd b) = ''/users/:id/profile''"
    unfolding profile_builder_item by auto
  have "map item_name (requests_at [''users'', '':id(x+)''] tree)
          = [''/users/:id/orders'', ''/users/:id/profile'']"
    unfolding req ab using fa fb na nb by simp
  with tree out fd len
  show "\<exists>tree. addEndpoints to_string None [orders_endpoint, profile_endpoint] [] = Inr tree
     \<and> map outline tree
         = [Named ''users'' [Named '':id(x+)''
              [Named ''/users/:id/orders'' [], Named ''/users/:id/profile'' []]]]
     \<and> folders_distinct tree
     \<and> length (concat (map leaves tree)) = 2
     \<and> map item_name (requests_at [''users'', '':id(x+)''] tree)
         = [''/users/:id/orders'', ''/users/:id/profile'']"
    by (intro exI [of _ tree] conjI)
qed

section \<open>Properties of the query compiler\<close>

lemma parseQueryRule_query_value: "parseQueryRule (Some r) = query_value r"
proof (cases "scalar_default (rule_default r)")
  case (Some s)
  then show ?thesis
    by (cases "rule_default r") (auto simp: query_value_def or_string_def)
next
  case None
  then have nd: "typeof (rule_default r) \<noteq> ''string''" "typeof (rule_default r) \<noteq> ''number''"
    "typeof (rule_default r) \<noteq> ''boolean''"
    by (cases "rule_default r"; simp)+
  show ?thesis
  proof (cases r)
    case (StringRule d vs)
    with None nd show ?thesis
      by (cases vs; cases "the vs") (auto simp: query_value_def or_string_def)
  next
    case (NumberRule d vs i)
    with None nd show ?thesis
      by (cases vs; cases "the vs") (auto simp: query_value_def or_string_def)
  qed (use None nd in \<open>auto simp: query_value_def\<close>)
qed

lemma opt_js_type: "(opt_js (map_option JStr t) = JUndefined) = (t = None)"
  by (cases t) simp_all

lemma keyLength_rule_js:
  "(keyLength (rule_js r) = 0) = (rule_type r = None \<and> rule_default r = JUndefined)"
  by (cases r) (simp_all add: defined_props_def opt_js_type)

lemma keyLength_cropped_rule_js:
  "(keyLength (cropped (rule_js r)) = 0) = (rule_type r = None \<and> rule_default r = JUndefined)"
  by (cases r) (simp_all add: defined_props_def opt_js_type)

lemma description_absent:
  "(inspect U (vrule_js (Single r)) False = None) = (rule_type r = None \<and> rule_default r = JUndefined)"
  "(parseDescription U (Single r) = None) = (rule_type r = None \<and> rule_default r = JUndefined)"
proof -
  show "(inspect U (vrule_js (Single r)) False = None) = (rule_type r = None \<and> rule_default r = JUndefined)"
    using keyLength_rule_js [of r] by (simp add: inspect_def Let_def)
  have a: "(builder_inspect U (rule_js r) = None) = (rule_type r = None \<and> rule_default r = JUndefined)"
    using keyLength_rule_js [of r] by (simp add: builder_inspect_def)
  have b: "(builder_inspect U (cropped (rule_js r)) = None) = (rule_type r = None \<and> rule_default r = JUndefined)"
    using keyLength_cropped_rule_js [of r] by (simp add: builder_inspect_def)
  show "(parseDescription U (Single r) = None) = (rule_type r = None \<and> rule_default r = JUndefined)"
    using a b by (simp del: rule_js.simps)
qed

text \<open>
  C7 (as stated, it fails).  The rule \<^verbatim>\<open>{page: {type: "number", integer: true}}\<close>
  compiles to the key \<^verbatim>\<open>page\<close> and the value \<^verbatim>\<open>0\<close> with a description, the dump of
  the rule, not without one; and with an empty list of values the value is the empty
  string, not the one of the type.
\<close>

theorem query_description_counterexample:
  "parseQuery sample_inspect (Some [(''page'', Single (NumberRule JUndefined None (Some True)))])
     = [\<lparr>q_key = ''page'', q_value = ''0'',
         q_description = Some (''{ type: '' @ [CHR 0x27] @ ''number'' @ [CHR 0x27] @ '', integer: true }'')\<rparr>]
   \<and> builder_parseQuery sample_inspect
         (Some [(''page'', Single (NumberRule JUndefined None (Some True)))])
     = [\<lparr>q_key = ''page'', q_value = ''0'',
         q_description = Some (''{ type: '' @ [CHR 0x27] @ ''number'' @ [CHR 0x27] @ '', integer: true }'')\<rparr>]
   \<and> Some (''{ type: '' @ [CHR 0x27] @ ''number'' @ [CHR 0x27] @ '', integer: true }'') \<noteq> None
   \<and> parseQueryRule (Some (NumberRule JUndefined (Some []) (Some True))) = []"
  by (simp add: parseQuery_def builder_parseQuery_def inspect_def builder_inspect_def
        defined_props_def trim_def is_space_def)

text \<open>
  C7 (amended).  Both query compilers give one triple for each field of the rule map,
  in its order: the key; the value \<open>query_value\<close> of the representative (the empty
  string when the field holds an empty list of variants); and the description of the
  field's rule.  The description of a single rule node is absent only when the node
  has neither a type nor a default.
\<close>

theorem query_compilation:
  "parseQuery U query =
     (case query of
        None \<Rightarrow> []
      | Some q \<Rightarrow>
          map (\<lambda>kv. \<lparr>q_key = fst kv,
                      q_value = (case representative (snd kv) of None \<Rightarrow> [] | Some r \<Rightarrow> query_value r),
                      q_description = inspect U (vrule_js (snd kv)) False\<rparr>) q)
   \<and> builder_parseQuery U query =
     (case query of
        None \<Rightarrow> []
      | Some q \<Rightarrow>
          map (\<lambda>kv. \<lparr>q_key = fst kv,
                      q_value = (case representative (snd kv) of None \<Rightarrow> [] | Some r \<Rightarrow> query_value r),
                      q_description = parseDescription U (snd kv)\<rparr>) q)
   \<and> (inspect U (vrule_js (Single r)) False = None)
       = (rule_type r = None \<and> rule_default r = JUndefined)
   \<and> (parseDescription U (Single r) = None)
       = (rule_type r = None \<and> rule_default r = JUndefined)"
proof -
  have v: "parseQueryRule x = (case x of None \<Rightarrow> [] | Some r \<Rightarrow> query_value r)" for x
    by (cases x) (simp_all add: parseQueryRule_query_value del: parseQueryRule.simps(2))
  show ?thesis
    unfolding parseQuery_def builder_parseQuery_def v
    using description_absent [of U r] by (simp split: option.splits)
qed

section \<open>The round trip of the serializer\<close>

lemma skip_ws_tabs: "skip_ws False (replicate k tab @ rest) = skip_ws False rest"
  by (induction k) (simp_all add: is_ws_def)

lemma skip_ws_comment_line: "newline \<notin> set s \<Longrightarrow> skip_ws True (s @ newline # rest) = skip_ws False rest"
  by (induction s) auto

lemma skip_ws_newline: "skip_ws False (newline # rest) = skip_ws False rest"
  by (simp add: is_ws_def)

lemma skip_ws_comment:
  "newline \<notin> set s \<Longrightarrow> skip_ws False ('' // '' @ s @ newline # rest) = skip_ws False rest"
  using skip_ws_comment_line [of "CHR '' '' # s" rest]
  by (simp add: is_ws_def)

lemma parse_chars_plain:
  "list_all plain_char s \<Longrightarrow> parse_chars (s @ dquote # rest) = Some (s, rest)"
  by (induction s) (simp_all add: plain_char_def)

lemma digits_all_digit: "list_all is_digit (digits n)"
proof (induction n rule: digits.induct)
  case (1 n)
  have d: "is_digit (digit_char k)" if "k < 10" for k
    using that by (simp add: is_digit_def)
  show ?case
  proof (cases "n < 10")
    case True
    then show ?thesis using d [of n] by (subst digits.simps) simp
  next
    case False
    then show ?thesis using 1 d [of "n mod 10"] by (subst digits.simps) simp
  qed
qed

lemma digits_nonempty: "digits n \<noteq> []"
  by (subst digits.simps) simp

lemma digit_value_char: "k < 10 \<Longrightarrow> digit_value (digit_char k) = k"
  by (simp add: digit_value_def)

lemma foldl_digits: "foldl (\<lambda>n d. 10 * n + digit_value d) 0 (digits n) = n"
proof (induction n rule: digits.induct)
  case (1 n)
  show ?case
  proof (cases "n < 10")
    case True
    then show ?thesis using digit_value_char [of n] by (subst digits.simps) simp
  next
    case False
    then show ?thesis
      using 1 digit_value_char [of "n mod 10"] by (subst digits.simps) simp
  qed
qed

lemma digits_leading: "0 < n \<Longrightarrow> hd (digits n) \<noteq> CHR ''0''"
proof (induction n rule: digits.induct)
  case (1 n)
  show ?case
  proof (cases "n < 10")
    case True
    have a: "(of_char (digit_char n) :: nat) = 48 + n" using True by simp
    have b: "(of_char CHR ''0'' :: nat) = 48" by simp
    have "digit_char n \<noteq> CHR ''0''"
    proof
      assume "digit_char n = CHR ''0''"
      then have "(of_char (digit_char n) :: nat) = of_char CHR ''0''" by (rule arg_cong)
      with a b 1(2) show False by simp
    qed
    with True show ?thesis by (subst digits.simps) simp
  next
    case False
    then have "0 < n div 10" by simp
    with 1 False have "hd (digits (n div 10)) \<noteq> CHR ''0''" by simp
    with False show ?thesis using digits_nonempty [of "n div 10"]
      by (subst digits.simps) simp
  qed
qed

lemma parse_nat_digits: "parse_nat (digits n) = Some (n, [])"
proof -
  have all: "\<And>x. x \<in> set (digits n) \<Longrightarrow> is_digit x"
    using digits_all_digit [of n] by (simp add: list_all_iff)
  have t: "takeWhile is_digit (digits n) = digits n"
    using all by (simp add: takeWhile_eq_all_conv)
  have d: "dropWhile is_digit (digits n) = []"
    using all by simp
  have lead: "\<not> (1 < length (digits n) \<and> hd (digits n) = CHR ''0'')"
  proof (cases "n < 10")
    case True
    then show ?thesis by (subst digits.simps) simp
  next
    case False
    then show ?thesis using digits_leading [of n] by simp
  qed
  show ?thesis
    unfolding parse_nat_def Let_def t d
    using lead digits_nonempty [of n] foldl_digits [of n] by simp
qed

lemma digits_hd: "is_digit (hd (digits n))"
  using digits_all_digit [of n] digits_nonempty [of n]
  by (cases "digits n") simp_all

lemma digit_not_minus: "is_digit c \<Longrightarrow> c \<noteq> CHR ''-''"
  by (auto simp: is_digit_def)

lemma digits_Cons: "\<exists>c cs. digits n = c # cs \<and> is_digit c"
  using digits_nonempty [of n] digits_hd [of n] by (cases "digits n") auto

lemma parse_integer_int: "parse_integer (num_toString (JInt i)) = Some (i, [])"
proof (cases "i < 0")
  case True
  then show ?thesis
    using parse_nat_digits [of "nat (- i)"] by (simp add: parse_integer_def)
next
  case False
  from digits_Cons [of "nat i"] obtain c cs where cs: "digits (nat i) = c # cs" and c: "is_digit c"
    by blast
  from digit_not_minus [OF c] False cs show ?thesis
    using parse_nat_digits [of "nat i"] by (simp add: parse_integer_def)
qed

lemma number_text_digits:
  assumes "list_all is_digit r" and "r \<noteq> []" and "\<not> (1 < length r \<and> hd r = CHR ''0'')"
  shows "hd r \<noteq> CHR ''-'' \<Longrightarrow> number_text r" and "number_text (CHR ''-'' # r)"
proof -
  have t: "takeWhile is_digit r = r"
    using assms(1) by (simp add: takeWhile_eq_all_conv list_all_iff)
  have d: "dropWhile is_digit r = []"
    using assms(1) by (simp add: list_all_iff)
  have ok: "takeWhile is_digit r \<noteq> []
            \<and> \<not> (1 < length (takeWhile is_digit r) \<and> hd (takeWhile is_digit r) = CHR ''0'')
            \<and> fraction_text (dropWhile is_digit r)"
    unfolding t d using assms(2,3) by (simp add: fraction_text_def)
  then show "number_text (CHR ''-'' # r)"
    by (simp add: number_text_def Let_def)
  assume "hd r \<noteq> CHR ''-''"
  with assms(2) have "(case r of [] \<Rightarrow> [] | c # r' \<Rightarrow> if c = CHR ''-'' then r' else r) = r"
    by (cases r) simp_all
  with ok show "number_text r"
    by (simp add: number_text_def Let_def)
qed

lemma number_text_int: "number_text (num_toString (JInt i))"
proof -
  note t = digits_all_digit
  have lead: "\<not> (1 < length (digits n) \<and> hd (digits n) = CHR ''0'')" for n
  proof (cases "n < 10")
    case True
    then show ?thesis by (subst digits.simps) simp
  next
    case False
    then show ?thesis using digits_leading [of n] by simp
  qed
  show ?thesis
  proof (cases "i < 0")
    case True
    then show ?thesis
      using number_text_digits(2) [OF t digits_nonempty lead, of "nat (- i)"] by simp
  next
    case False
    from digits_Cons [of "nat i"] obtain c cs where cs: "digits (nat i) = c # cs" and c: "is_digit c"
      by blast
    have "hd (digits (nat i)) \<noteq> CHR ''-''"
      using cs digit_not_minus [OF c] by simp
    from number_text_digits(1) [OF t digits_nonempty lead this] False show ?thesis by simp
  qed
qed

lemma number_char_int: "list_all number_char (num_toString (JInt i))"
  using digits_all_digit [of "nat i"] digits_all_digit [of "nat (- i)"]
  by (auto simp: list_all_iff number_char_def)

lemma exponent_text_chars: "exponent_text r \<Longrightarrow> list_all number_char r"
proof (cases r)
  case Nil
  then show ?thesis by simp
next
  case (Cons c r')
  assume "exponent_text r"
  with Cons show ?thesis
    by (cases r') (auto simp: exponent_text_def number_char_def list_all_iff Let_def split: if_splits)
qed

lemma takeWhile_all: "list_all P (takeWhile P xs)"
  by (induction xs) simp_all

lemma digit_chars: "list_all is_digit xs \<Longrightarrow> list_all number_char xs"
  by (simp add: list_all_iff number_char_def)

lemma split_digits:
  "list_all number_char (dropWhile is_digit r) \<Longrightarrow> list_all number_char r"
proof -
  assume a: "list_all number_char (dropWhile is_digit r)"
  note b = digit_chars [OF takeWhile_all [of is_digit r]]
  show ?thesis
    unfolding list_all_iff
  proof
    fix x
    assume "x \<in> set r"
    then have "x \<in> set (takeWhile is_digit r) \<or> x \<in> set (dropWhile is_digit r)"
      by (metis Un_iff set_append takeWhile_dropWhile_id)
    with a b show "number_char x" by (auto simp: list_all_iff)
  qed
qed

lemma fraction_text_chars: "fraction_text r \<Longrightarrow> list_all number_char r"
proof (cases r)
  case Nil
  then show ?thesis by simp
next
  case (Cons c r')
  assume f: "fraction_text r"
  show ?thesis
  proof (cases "c = CHR ''.''")
    case True
    with f Cons have "exponent_text (dropWhile is_digit r')" by (simp add: fraction_text_def)
    from split_digits [OF exponent_text_chars [OF this]] True Cons show ?thesis
      by (simp add: number_char_def)
  next
    case False
    with f Cons have "exponent_text r" by (simp add: fraction_text_def)
    from exponent_text_chars [OF this] show ?thesis .
  qed
qed

lemma number_text_chars: "number_text t \<Longrightarrow> list_all number_char t"
proof -
  assume n: "number_text t"
  define r where "r = (case t of [] \<Rightarrow> [] | c # r' \<Rightarrow> if c = CHR ''-'' then r' else t)"
  from n have "fraction_text (dropWhile is_digit r)"
    by (simp add: number_text_def Let_def r_def)
  from split_digits [OF fraction_text_chars [OF this]] have "list_all number_char r" .
  then show ?thesis
    by (cases t) (auto simp: r_def number_char_def split: if_splits)
qed

lemma number_text_hd:
  "number_text t \<Longrightarrow> \<exists>c cs. t = c # cs \<and> (is_digit c \<or> c = CHR ''-'')"
  by (cases t) (auto simp: number_text_def Let_def split: if_splits)

lemma clean_number_text:
  assumes "clean_number n"
  shows "number_text (num_toString n)" and "list_all number_char (num_toString n)"
    and "number_value (num_toString n) = n"
proof -
  show "number_text (num_toString n)"
    using assms number_text_int by (cases n) simp_all
  then show "list_all number_char (num_toString n)" by (rule number_text_chars)
  show "number_value (num_toString n) = n"
  proof (cases n)
    case (JInt i)
    have "num_toString (JInt i) \<noteq> ''-0''"
    proof (cases "i < 0")
      case True
      have "digits (nat (- i)) \<noteq> ''0''"
      proof
        assume "digits (nat (- i)) = ''0''"
        with foldl_digits [of "nat (- i)"] have "nat (- i) = 0" by (simp add: digit_value_def)
        with True show False by simp
      qed
      with True show ?thesis by simp
    next
      case False
      from digits_Cons [of "nat i"] obtain c cs where "digits (nat i) = c # cs" and "is_digit c"
        by blast
      with False digit_not_minus [of c] show ?thesis by auto
    qed
    with JInt assms parse_integer_int [of i] show ?thesis by (simp add: number_value_def)
  qed (use assms in simp_all)
qed

lemma num_toString_hd:
  "clean_number n \<Longrightarrow> \<exists>c cs. num_toString n = c # cs \<and> (is_digit c \<or> c = CHR ''-'')"
  using clean_number_text(1) [of n] number_text_hd [of "num_toString n"] by simp

lemma parse_number_clean:
  assumes "clean_number n" and "no_number_ahead rest"
  shows "parse_number (num_toString n @ rest) = Some (JNum n, rest)"
proof -
  note n = clean_number_text [OF assms(1)]
  have all: "\<And>x. x \<in> set (num_toString n) \<Longrightarrow> number_char x"
    using n(2) by (simp add: list_all_iff)
  have tr: "takeWhile number_char rest = []" and dr: "dropWhile number_char rest = rest"
    using assms(2) by (cases rest; simp add: no_number_ahead_def)+
  have t: "takeWhile number_char (num_toString n @ rest) = num_toString n"
    using all tr by (simp add: takeWhile_append2)
  have d: "dropWhile number_char (num_toString n @ rest) = rest"
    using all dr by (simp add: dropWhile_append2)
  show ?thesis
    unfolding parse_number_def Let_def t d using n(1,3) by simp
qed

lemma parse_scalar_number:
  assumes "clean_number n" and "no_number_ahead rest"
  shows "parse_scalar (num_toString n @ rest) = Some (JNum n, rest)"
proof -
  from num_toString_hd [OF assms(1)] obtain c cs where
    cs: "num_toString n = c # cs" and c: "is_digit c \<or> c = CHR ''-''" by blast
  from c have "c \<noteq> CHR ''n''" "c \<noteq> CHR ''t''" "c \<noteq> CHR ''f''"
    by (auto simp: is_digit_def)
  then have "take 4 (num_toString n @ rest) \<noteq> ''null''"
    "take 4 (num_toString n @ rest) \<noteq> ''true''"
    "take 5 (num_toString n @ rest) \<noteq> ''false''"
    unfolding cs by (auto simp: take_Cons')
  then show ?thesis
    using parse_number_clean [OF assms] by (simp add: parse_scalar_def)
qed

lemma parse_scalar_words:
  "parse_scalar (''null'' @ rest) = Some (JNull, rest)"
  "parse_scalar (''true'' @ rest) = Some (JBool True, rest)"
  "parse_scalar (''false'' @ rest) = Some (JBool False, rest)"
  by (simp_all add: parse_scalar_def)

lemma skip_ws_start:
  "\<not> is_ws c \<Longrightarrow> c \<noteq> CHR ''/'' \<Longrightarrow> skip_ws False (c # cs) = c # cs"
  by simp

lemma parse_value_skip:
  "skip_ws False a = skip_ws False b \<Longrightarrow> parse_json Value a = parse_json Value b"
  by (subst parse_json.simps, subst (2) parse_json.simps) simp

lemma parse_elements_skip:
  "skip_ws False a = skip_ws False b \<Longrightarrow> parse_json Elements a = parse_json Elements b"
  using parse_value_skip [of a b]
  by (subst parse_json.simps, subst (2) parse_json.simps) simp

lemma parse_members_skip:
  "skip_ws False a = skip_ws False b \<Longrightarrow> parse_json Members a = parse_json Members b"
  by (subst parse_json.simps, subst (2) parse_json.simps) simp

lemma skip_ws_comment_only:
  assumes "clean_comment c"
  shows "skip_ws False (comment_only c @ rest) = skip_ws False rest"
proof (cases "truthy c")
  case False
  then have "comment_only c @ rest = newline # rest" by (simp add: comment_only_def)
  then show ?thesis using skip_ws_newline [of rest] by simp
next
  case True
  with assms obtain s where c: "c = JStr s" and nl: "newline \<notin> set s"
    by (cases c) (simp_all add: clean_comment_def)
  have eq: "comment_only c @ rest = '' // '' @ s @ newline # rest"
    using True c by (simp add: comment_only_def)
  show ?thesis unfolding eq by (rule skip_ws_comment [OF nl])
qed

lemma comment_only_no_number: "no_number_ahead (comment_only c @ rest)"
  by (simp add: comment_only_def no_number_ahead_def number_char_def is_digit_def)

lemma comma_no_number: "no_number_ahead (CHR '','' # rest)"
  by (simp add: no_number_ahead_def number_char_def is_digit_def)

lemma parse_scalar_none:
  assumes "\<not> is_digit c" and "c \<noteq> CHR ''n''" and "c \<noteq> CHR ''t''" and "c \<noteq> CHR ''f''"
    and "c \<noteq> CHR ''-''"
  shows "parse_scalar (c # r) = None"
proof -
  have "\<not> number_text (takeWhile number_char (c # r))"
    using assms(1,5) by (simp add: number_text_def)
  then have "parse_number (c # r) = None" by (simp add: parse_number_def Let_def)
  moreover have "take 4 (c # r) \<noteq> ''null''" "take 4 (c # r) \<noteq> ''true''"
    "take 5 (c # r) \<noteq> ''false''"
    using assms(2-4) by (simp_all add: take_Cons')
  ultimately show ?thesis by (simp only: parse_scalar_def if_False)
qed

lemma parse_scalar_first:
  assumes "parse_scalar (c # r) = Some vr"
  shows "c \<noteq> CHR '']'' \<and> c \<noteq> CHR ''}''"
proof -
  have "parse_scalar (CHR '']'' # r) = None" "parse_scalar (CHR ''}'' # r) = None"
    by (rule parse_scalar_none; simp add: is_digit_def)+
  with assms show ?thesis by auto
qed

lemma parse_value_first:
  assumes "parse_json Value cs = Some vr"
  shows "\<exists>c t. skip_ws False cs = c # t \<and> c \<noteq> CHR '']'' \<and> c \<noteq> CHR ''}''"
proof (cases "skip_ws False cs")
  case Nil
  with assms show ?thesis by (subst (asm) parse_json.simps) simp
next
  case (Cons c t)
  have "c \<noteq> CHR '']'' \<and> c \<noteq> CHR ''}''"
  proof (cases "c = dquote \<or> c = CHR ''['' \<or> c = CHR ''{''")
    case True
    then show ?thesis by auto
  next
    case False
    with assms Cons have "parse_scalar (c # t) = Some vr"
      by (subst (asm) parse_json.simps) simp
    from parse_scalar_first [OF this] show ?thesis .
  qed
  with Cons show ?thesis by simp
qed

lemma parse_elements_first:
  assumes "parse_json Elements cs = Some vr"
  shows "\<exists>c t. skip_ws False cs = c # t \<and> c \<noteq> CHR '']''"
proof -
  from assms obtain w where "parse_json Value cs = Some w"
    by (subst (asm) parse_json.simps) (auto simp: bind_eq_Some_conv)
  from parse_value_first [OF this] show ?thesis by blast
qed

lemma parse_members_first:
  assumes "parse_json Members cs = Some vr"
  shows "\<exists>c t. skip_ws False cs = c # t \<and> c \<noteq> CHR ''}''"
proof (cases "skip_ws False cs")
  case Nil
  with assms show ?thesis by (subst (asm) parse_json.simps) simp
next
  case (Cons c t)
  with assms have "c = dquote"
    by (subst (asm) parse_json.simps) (simp split: if_splits)
  with Cons show ?thesis by simp
qed

text \<open>The value of a list of members, and of a mapping's, read after the opening bracket.\<close>

lemma parse_value_array:
  assumes "parse_json Elements (body @ replicate k tab @ CHR '']'' # rest) = Some (JArr vs, rest)"
  shows "parse_json Value (CHR ''['' # newline # body @ replicate k tab @ CHR '']'' # rest)
           = Some (JArr vs, rest)"
proof -
  let ?r = "newline # body @ replicate k tab @ CHR '']'' # rest"
  have sk: "skip_ws False ?r = skip_ws False (body @ replicate k tab @ CHR '']'' # rest)"
    by (rule skip_ws_newline)
  from parse_elements_first [OF assms] obtain c t where
    ct: "skip_ws False ?r = c # t" and c: "c \<noteq> CHR '']''" using sk by auto
  have el: "parse_json Elements ?r = Some (JArr vs, rest)"
    using parse_elements_skip [OF sk] assms by simp
  have "skip_ws False (CHR ''['' # ?r) = CHR ''['' # ?r" by (simp add: is_ws_def)
  then show ?thesis
    using ct c el by (subst parse_json.simps) simp
qed

lemma parse_value_object:
  assumes "parse_json Members (body @ replicate k tab @ CHR ''}'' # rest) = Some (JObj kvs, rest)"
  shows "parse_json Value (CHR ''{'' # newline # body @ replicate k tab @ CHR ''}'' # rest)
           = Some (JObj kvs, rest)"
proof -
  let ?r = "newline # body @ replicate k tab @ CHR ''}'' # rest"
  have sk: "skip_ws False ?r = skip_ws False (body @ replicate k tab @ CHR ''}'' # rest)"
    by (rule skip_ws_newline)
  from parse_members_first [OF assms] obtain c t where
    ct: "skip_ws False ?r = c # t" and c: "c \<noteq> CHR ''}''" using sk by auto
  have el: "parse_json Members ?r = Some (JObj kvs, rest)"
    using parse_members_skip [OF sk] assms by simp
  have "skip_ws False (CHR ''{'' # ?r) = CHR ''{'' # ?r" by (simp add: is_ws_def)
  then show ?thesis
    using ct c el by (subst parse_json.simps) simp
qed

lemma parse_value_empty:
  "parse_json Value (CHR ''['' # newline # replicate k tab @ CHR '']'' # rest) = Some (JArr [], rest)"
  "parse_json Value (CHR ''{'' # newline # replicate k tab @ CHR ''}'' # rest) = Some (JObj [], rest)"
proof -
  have a: "skip_ws False (newline # replicate k tab @ CHR '']'' # rest) = CHR '']'' # rest"
    using skip_ws_tabs [of k "CHR '']'' # rest"] by (simp add: is_ws_def)
  have b: "skip_ws False (newline # replicate k tab @ CHR ''}'' # rest) = CHR ''}'' # rest"
    using skip_ws_tabs [of k "CHR ''}'' # rest"] by (simp add: is_ws_def)
  show "parse_json Value (CHR ''['' # newline # replicate k tab @ CHR '']'' # rest) = Some (JArr [], rest)"
    using a by (subst parse_json.simps) (simp add: is_ws_def)
  show "parse_json Value (CHR ''{'' # newline # replicate k tab @ CHR ''}'' # rest) = Some (JObj [], rest)"
    using b by (subst parse_json.simps) (simp add: is_ws_def)
qed

lemma parse_value_string:
  "list_all plain_char s \<Longrightarrow> parse_json Value (dquote # s @ dquote # rest) = Some (JStr s, rest)"
  using parse_chars_plain [of s rest]
  by (subst parse_json.simps) (simp add: is_ws_def)

lemma parse_value_scalar:
  assumes "parse_scalar (c # t) = Some vr" and "\<not> is_ws c" and "c \<noteq> CHR ''/''"
    and "c \<noteq> dquote" and "c \<noteq> CHR ''[''" and "c \<noteq> CHR ''{''"
  shows "parse_json Value (c # t) = Some vr"
  using assms by (subst parse_json.simps) simp

lemma flagged_indexed:
  "map (\<lambda>(i, x). F x (Suc i = k + length vs)) (zip [k..<k + length vs] vs)
     = map (\<lambda>(x, b). F x b) (flagged vs)"
proof (induction vs arbitrary: k rule: flagged.induct)
  case 1
  then show ?case by simp
next
  case (2 x)
  then show ?case by simp
next
  case (3 x y ys)
  have lt: "k < k + length (x # y # ys)" by simp
  have eq: "k + length (x # y # ys) = Suc k + length (y # ys)" by simp
  have up: "[k..<k + length (x # y # ys)] = k # [Suc k..<Suc k + length (y # ys)]"
    using upt_conv_Cons [OF lt] unfolding eq .
  have "map (\<lambda>(i, z). F z (Suc i = k + length (x # y # ys))) (zip [Suc k..<Suc k + length (y # ys)] (y # ys))
          = map (\<lambda>(i, z). F z (Suc i = Suc k + length (y # ys))) (zip [Suc k..<Suc k + length (y # ys)] (y # ys))"
    by simp
  also have "\<dots> = map (\<lambda>(z, b). F z b) (flagged (y # ys))"
    by (rule "3.IH")
  finally show ?case unfolding up by simp
qed

lemma flagged_indexed0:
  "map (\<lambda>(i, x). F x (Suc i = length vs)) (zip [0..<length vs] vs)
     = map (\<lambda>(x, b). F x b) (flagged vs)"
  using flagged_indexed [of F 0 vs] by simp

lemma elements_read_back:
  assumes "xs \<noteq> []" and "\<forall>x \<in> set xs. \<forall>b. reads_back x b ind"
  shows "\<exists>body. concat_results
                  (map (\<lambda>(x, b). case stringifyJsonc x b ind of
                                    Inl e \<Rightarrow> Inl e
                                  | Inr s \<Rightarrow> Inr (replicate ind tab @ s)) (flagged xs)) = Inr body
           \<and> (\<forall>k rest. parse_json Elements (body @ replicate k tab @ CHR '']'' # rest)
                          = Some (JArr (map erase xs), rest))"
  using assms
proof (induction xs rule: flagged.induct)
  case 1
  then show ?case by simp
next
  case (2 x)
  then have "reads_back x True ind" by simp
  then obtain vt c where c: "clean_comment c"
    and s: "stringifyJsonc x True ind = Inr (vt @ comment_only c)"
    and p: "\<And>rest. no_number_ahead rest \<Longrightarrow> parse_json Value (vt @ rest) = Some (erase x, rest)"
    by (auto simp: reads_back_def)
  have "parse_json Elements ((replicate ind tab @ vt @ comment_only c) @ replicate k tab @ CHR '']'' # rest)
          = Some (JArr (map erase [x]), rest)" for k rest
  proof -
    let ?R = "comment_only c @ replicate k tab @ CHR '']'' # rest"
    have v: "parse_json Value (replicate ind tab @ vt @ ?R) = Some (erase x, ?R)"
      using parse_value_skip [OF skip_ws_tabs [of ind "vt @ ?R"]] p [OF comment_only_no_number]
      by simp
    have sk: "skip_ws False ?R = CHR '']'' # rest"
      using skip_ws_comment_only [OF c, of "replicate k tab @ CHR '']'' # rest"]
        skip_ws_tabs [of k "CHR '']'' # rest"]
      by (simp add: is_ws_def)
    show ?thesis
      using v sk by (subst parse_json.simps) simp
  qed
  with s show ?case by (simp del: stringifyJsonc.simps)
next
  case (3 x y ys)
  then have "reads_back x False ind" by simp
  then obtain vt c where c: "clean_comment c"
    and s: "stringifyJsonc x False ind = Inr (vt @ '','' @ comment_only c)"
    and p: "\<And>rest. no_number_ahead rest \<Longrightarrow> parse_json Value (vt @ rest) = Some (erase x, rest)"
    by (auto simp: reads_back_def)
  from 3 obtain body where
    b: "concat_results
          (map (\<lambda>(x, b). case stringifyJsonc x b ind of
                            Inl e \<Rightarrow> Inl e
                          | Inr s \<Rightarrow> Inr (replicate ind tab @ s)) (flagged (y # ys))) = Inr body"
    and pb: "\<And>k rest. parse_json Elements (body @ replicate k tab @ CHR '']'' # rest)
                          = Some (JArr (map erase (y # ys)), rest)"
    by auto
  have "parse_json Elements ((replicate ind tab @ vt @ '','' @ comment_only c @ body)
            @ replicate k tab @ CHR '']'' # rest)
          = Some (JArr (map erase (x # y # ys)), rest)" for k rest
  proof -
    let ?T = "body @ replicate k tab @ CHR '']'' # rest"
    let ?R = "CHR '','' # comment_only c @ ?T"
    have v: "parse_json Value (replicate ind tab @ vt @ ?R) = Some (erase x, ?R)"
      using parse_value_skip [OF skip_ws_tabs [of ind "vt @ ?R"]] p [OF comma_no_number]
      by simp
    have sk: "skip_ws False ?R = ?R" by (simp add: is_ws_def)
    have e: "parse_json Elements (comment_only c @ ?T) = Some (JArr (map erase (y # ys)), rest)"
      using parse_elements_skip [OF skip_ws_comment_only [OF c, of ?T]] pb [of k rest] by simp
    show ?thesis
      using v sk e by (subst parse_json.simps) simp
  qed
  with s b show ?case by (simp del: stringifyJsonc.simps)
qed

lemma members_read_back:
  assumes "kvs \<noteq> []"
    and "\<forall>kv \<in> set kvs. list_all plain_char (fst kv) \<and> (\<forall>b. reads_back (snd kv) b ind)"
  shows "\<exists>body. concat_results
                  (map (\<lambda>(kx, b). case stringifyJsonc (snd kx) b ind of
                                     Inl e \<Rightarrow> Inl e
                                   | Inr s \<Rightarrow>
                                       Inr (replicate ind tab @ dquote # fst kx @ dquote # '': '' @ s))
                       (flagged kvs)) = Inr body
           \<and> (\<forall>k rest. parse_json Members (body @ replicate k tab @ CHR ''}'' # rest)
                          = Some (JObj (map (\<lambda>kv. (fst kv, erase (snd kv))) kvs), rest))"
  using assms
proof (induction kvs rule: flagged.induct)
  case 1
  then show ?case by simp
next
  case (2 kx)
  then have key: "list_all plain_char (fst kx)" and "reads_back (snd kx) True ind" by simp_all
  then obtain vt c where c: "clean_comment c"
    and s: "stringifyJsonc (snd kx) True ind = Inr (vt @ comment_only c)"
    and p: "\<And>rest. no_number_ahead rest \<Longrightarrow> parse_json Value (vt @ rest) = Some (erase (snd kx), rest)"
    by (auto simp: reads_back_def)
  have "parse_json Members
          ((replicate ind tab @ dquote # fst kx @ dquote # '': '' @ vt @ comment_only c)
             @ replicate k tab @ CHR ''}'' # rest)
          = Some (JObj (map (\<lambda>kv. (fst kv, erase (snd kv))) [kx]), rest)" for k rest
  proof -
    let ?R = "comment_only c @ replicate k tab @ CHR ''}'' # rest"
    let ?K = "dquote # fst kx @ dquote # '': '' @ vt @ ?R"
    have s1: "skip_ws False (replicate ind tab @ ?K) = ?K"
      using skip_ws_tabs [of ind ?K] by (simp add: is_ws_def)
    have k1: "parse_chars (fst kx @ dquote # '': '' @ vt @ ?R) = Some (fst kx, '': '' @ vt @ ?R)"
      by (rule parse_chars_plain [OF key])
    have s2: "skip_ws False ('': '' @ vt @ ?R) = CHR '':'' # CHR '' '' # vt @ ?R"
      by (simp add: is_ws_def)
    have "skip_ws False (CHR '' '' # vt @ ?R) = skip_ws False (vt @ ?R)" by (simp add: is_ws_def)
    from parse_value_skip [OF this] p [OF comment_only_no_number]
    have v: "parse_json Value (CHR '' '' # vt @ ?R) = Some (erase (snd kx), ?R)" by simp
    have sk: "skip_ws False ?R = CHR ''}'' # rest"
      using skip_ws_comment_only [OF c, of "replicate k tab @ CHR ''}'' # rest"]
        skip_ws_tabs [of k "CHR ''}'' # rest"]
      by (simp add: is_ws_def)
    have "parse_json Members (replicate ind tab @ ?K)
            = Some (JObj [(fst kx, erase (snd kx))], rest)"
      by (subst parse_json.simps) (simp add: s1 k1 s2 v sk del: append.simps)
    then show ?thesis by simp
  qed
  with s show ?case by (simp del: stringifyJsonc.simps)
next
  case (3 kx ky kys)
  then have key: "list_all plain_char (fst kx)" and "reads_back (snd kx) False ind" by simp_all
  then obtain vt c where c: "clean_comment c"
    and s: "stringifyJsonc (snd kx) False ind = Inr (vt @ '','' @ comment_only c)"
    and p: "\<And>rest. no_number_ahead rest \<Longrightarrow> parse_json Value (vt @ rest) = Some (erase (snd kx), rest)"
    by (auto simp: reads_back_def)
  from 3 obtain body where
    b: "concat_results
          (map (\<lambda>(kx, b). case stringifyJsonc (snd kx) b ind of
                             Inl e \<Rightarrow> Inl e
                           | Inr s \<Rightarrow>
                               Inr (replicate ind tab @ dquote # fst kx @ dquote # '': '' @ s))
               (flagged (ky # kys))) = Inr body"
    and pb: "\<And>k rest. parse_json Members (body @ replicate k tab @ CHR ''}'' # rest)
                          = Some (JObj (map (\<lambda>kv. (fst kv, erase (snd kv))) (ky # kys)), rest)"
    by auto
  have "parse_json Members
          ((replicate ind tab @ dquote # fst kx @ dquote # '': '' @ vt @ '','' @ comment_only c @ body)
             @ replicate k tab @ CHR ''}'' # rest)
          = Some (JObj (map (\<lambda>kv. (fst kv, erase (snd kv))) (kx # ky # kys)), rest)" for k rest
  proof -
    let ?T = "body @ replicate k tab @ CHR ''}'' # rest"
    let ?R = "CHR '','' # comment_only c @ ?T"
    let ?K = "dquote # fst kx @ dquote # '': '' @ vt @ ?R"
    have s1: "skip_ws False (replicate ind tab @ ?K) = ?K"
      using skip_ws_tabs [of ind ?K] by (simp add: is_ws_def)
    have k1: "parse_chars (fst kx @ dquote # '': '' @ vt @ ?R) = Some (fst kx, '': '' @ vt @ ?R)"
      by (rule parse_chars_plain [OF key])
    have s2: "skip_ws False ('': '' @ vt @ ?R) = CHR '':'' # CHR '' '' # vt @ ?R"
      by (simp add: is_ws_def)
    have "skip_ws False (CHR '' '' # vt @ ?R) = skip_ws False (vt @ ?R)" by (simp add: is_ws_def)
    from parse_value_skip [OF this] p [OF comma_no_number]
    have v: "parse_json Value (CHR '' '' # vt @ ?R) = Some (erase (snd kx), ?R)" by simp
    have sk: "skip_ws False ?R = ?R" by (simp add: is_ws_def)
    have e: "parse_json Members (comment_only c @ ?T)
               = Some (JObj (map (\<lambda>kv. (fst kv, erase (snd kv))) (ky # kys)), rest)"
      using parse_members_skip [OF skip_ws_comment_only [OF c, of ?T]] pb [of k rest] by simp
    have "parse_json Members (replicate ind tab @ ?K)
            = Some (JObj ((fst kx, erase (snd kx)) # map (\<lambda>kv. (fst kv, erase (snd kv))) (ky # kys)), rest)"
      by (subst parse_json.simps) (simp add: s1 k1 s2 v sk e is_ws_def del: append.simps)
    then show ?thesis by simp
  qed
  with s b show ?case by (simp del: stringifyJsonc.simps)
qed

lemma size_member: "x \<in> set xs \<Longrightarrow> size x < Suc (size_list size xs)" for x :: jsval
  by (induction xs) auto

lemma size_entry:
  "kv \<in> set kvs \<Longrightarrow> size (snd kv) < Suc (size_list (size_prod (\<lambda>_. 0) size) kvs)"
  for kv :: "string \<times> jsval"
  by (induction kvs) auto

lemma stringify_pair:
  "stringifyJsonc (JArr [v, c]) b ind =
     (case v of
        JStr s \<Rightarrow> Inr (dquote # s @ [dquote] @ (if b then [] else '','') @ comment_only c)
      | JNum n \<Rightarrow> Inr (num_toString n @ (if b then [] else '','') @ comment_only c)
      | JBool t \<Rightarrow> Inr (to_string (JBool t) @ (if b then [] else '','') @ comment_only c)
      | JNull \<Rightarrow> Inr (''null'' @ (if b then [] else '','') @ comment_only c)
      | JArr vs \<Rightarrow>
          (case concat_results
                  (map (\<lambda>(x, l). case stringifyJsonc x l (Suc ind) of
                                    Inl e \<Rightarrow> Inl e
                                  | Inr s \<Rightarrow> Inr (replicate (Suc ind) tab @ s)) (flagged vs)) of
             Inl e \<Rightarrow> Inl e
           | Inr body \<Rightarrow>
               Inr (CHR ''['' # newline # body @ replicate ind tab @ '']''
                    @ (if b then [] else '','') @ comment_only c))
      | JObj kvs \<Rightarrow>
          (case concat_results
                  (map (\<lambda>(kx, l). case stringifyJsonc (snd kx) l (Suc ind) of
                                     Inl e \<Rightarrow> Inl e
                                   | Inr s \<Rightarrow>
                                       Inr (replicate (Suc ind) tab @ dquote # fst kx @ dquote # '': '' @ s))
                       (flagged kvs)) of
             Inl e \<Rightarrow> Inl e
           | Inr body \<Rightarrow>
               Inr (CHR ''{'' # newline # body @ replicate ind tab @ ''}''
                    @ (if b then [] else '','') @ comment_only c))
      | _ \<Rightarrow> Inr [])"
proof -
  have a: "map (\<lambda>(i, x). case stringifyJsonc x (Suc i = length vs) (Suc ind) of
                           Inl e \<Rightarrow> Inl e
                         | Inr s \<Rightarrow> Inr (replicate (Suc ind) tab @ s)) (zip [0..<length vs] vs)
             = map (\<lambda>(x, l). case stringifyJsonc x l (Suc ind) of
                                    Inl e \<Rightarrow> Inl e
                                  | Inr s \<Rightarrow> Inr (replicate (Suc ind) tab @ s)) (flagged vs)" for vs
    by (rule flagged_indexed0
          [of "\<lambda>x l. case stringifyJsonc x l (Suc ind) of
                        Inl e \<Rightarrow> Inl e
                      | Inr s \<Rightarrow> Inr (replicate (Suc ind) tab @ s)" vs])
  have o: "map (\<lambda>(i, kx). case stringifyJsonc (snd kx) (Suc i = length kvs) (Suc ind) of
                            Inl e \<Rightarrow> Inl e
                          | Inr s \<Rightarrow>
                              Inr (replicate (Suc ind) tab @ dquote # fst kx @ dquote # '': '' @ s))
                 (zip [0..<length kvs] kvs)
             = map (\<lambda>(kx, l). case stringifyJsonc (snd kx) l (Suc ind) of
                                     Inl e \<Rightarrow> Inl e
                                   | Inr s \<Rightarrow>
                                       Inr (replicate (Suc ind) tab @ dquote # fst kx @ dquote # '': '' @ s))
                   (flagged kvs)" for kvs :: "(string \<times> jsval) list"
    by (rule flagged_indexed0
          [of "\<lambda>kx l. case stringifyJsonc (snd kx) l (Suc ind) of
                         Inl e \<Rightarrow> Inl e
                       | Inr s \<Rightarrow>
                           Inr (replicate (Suc ind) tab @ dquote # fst kx @ dquote # '': '' @ s)" kvs])
  show ?thesis
    apply (subst stringifyJsonc.simps)
    apply (unfold Let_def comment_only_def [symmetric])
    apply (simp add: a o del: stringifyJsonc.simps replicate.simps split: jsval.splits)
    done
qed

lemma reads_back_clean: "clean_jsonc data \<Longrightarrow> reads_back data b ind"
proof (induction data arbitrary: b ind rule: measure_induct_rule [of size])
  case (less data b ind)
  from less.prems obtain v c where data: "data = JArr [v, c]" and c: "clean_comment c"
    and v: "case v of
              JNull \<Rightarrow> True
            | JBool b \<Rightarrow> True
            | JNum n \<Rightarrow> clean_number n
            | JStr s \<Rightarrow> list_all plain_char s
            | JArr vs \<Rightarrow> list_all clean_jsonc vs
            | JObj kvs \<Rightarrow> list_all (\<lambda>kv. list_all plain_char (fst kv) \<and> clean_jsonc (snd kv)) kvs
            | _ \<Rightarrow> False"
    by (auto elim: clean_jsonc.elims(2))
  let ?sfx = "(if b then [] else '','') @ comment_only c"
  have goal: "reads_back data b ind"
    if "stringifyJsonc data b ind = Inr (vt @ ?sfx)"
      and "\<And>rest. no_number_ahead rest \<Longrightarrow> parse_json Value (vt @ rest) = Some (erase data, rest)"
    for vt
    using that c unfolding reads_back_def by blast
  show ?case
  proof (cases v)
    case JUndefined
    with v show ?thesis by simp
  next
    case (JFunction src)
    with v show ?thesis by simp
  next
    case JNull
    show ?thesis
    proof (rule goal [of "''null''"])
      show "stringifyJsonc data b ind = Inr (''null'' @ ?sfx)"
        unfolding data stringify_pair JNull by simp
      fix rest
      have "parse_json Value (CHR ''n'' # ''ull'' @ rest) = Some (JNull, rest)"
        by (rule parse_value_scalar) (use parse_scalar_words(1) [of rest] in \<open>simp_all add: is_ws_def\<close>)
      then show "parse_json Value (''null'' @ rest) = Some (erase data, rest)"
        by (simp add: data JNull)
    qed
  next
    case (JBool t)
    show ?thesis
    proof (rule goal [of "to_string (JBool t)"])
      show "stringifyJsonc data b ind = Inr (to_string (JBool t) @ ?sfx)"
        unfolding data stringify_pair JBool by simp
      fix rest
      have "parse_json Value (CHR ''t'' # ''rue'' @ rest) = Some (JBool True, rest)"
        by (rule parse_value_scalar) (use parse_scalar_words(2) [of rest] in \<open>simp_all add: is_ws_def\<close>)
      moreover have "parse_json Value (CHR ''f'' # ''alse'' @ rest) = Some (JBool False, rest)"
        by (rule parse_value_scalar) (use parse_scalar_words(3) [of rest] in \<open>simp_all add: is_ws_def\<close>)
      ultimately show "parse_json Value (to_string (JBool t) @ rest) = Some (erase data, rest)"
        by (simp add: data JBool)
    qed
  next
    case (JNum n)
    with v have n: "clean_number n" by simp
    show ?thesis
    proof (rule goal [of "num_toString n"])
      show "stringifyJsonc data b ind = Inr (num_toString n @ ?sfx)"
        unfolding data stringify_pair JNum by simp
      fix rest
      assume nd: "no_number_ahead rest"
      from num_toString_hd [OF n] obtain c0 cs where
        cs: "num_toString n = c0 # cs" and c0: "is_digit c0 \<or> c0 = CHR ''-''" by blast
      have "parse_json Value (c0 # cs @ rest) = Some (JNum n, rest)"
      proof (rule parse_value_scalar)
        show "parse_scalar (c0 # cs @ rest) = Some (JNum n, rest)"
          using parse_scalar_number [OF n nd] cs by simp
      qed (use c0 in \<open>auto simp: is_digit_def is_ws_def\<close>)
      then show "parse_json Value (num_toString n @ rest) = Some (erase data, rest)"
        unfolding cs by (simp add: data JNum)
    qed
  next
    case (JStr s)
    with v have s: "list_all plain_char s" by simp
    show ?thesis
    proof (rule goal [of "dquote # s @ [dquote]"])
      show "stringifyJsonc data b ind = Inr ((dquote # s @ [dquote]) @ ?sfx)"
        unfolding data stringify_pair JStr by simp
      fix rest
      show "parse_json Value ((dquote # s @ [dquote]) @ rest) = Some (erase data, rest)"
        using parse_value_string [OF s, of rest] by (simp add: data JStr)
    qed
  next
    case (JArr vs)
    with v have cl: "list_all clean_jsonc vs" by simp
    show ?thesis
    proof (cases "vs = []")
      case True
      show ?thesis
      proof (rule goal [of "CHR ''['' # newline # replicate ind tab @ '']''"])
        show "stringifyJsonc data b ind = Inr ((CHR ''['' # newline # replicate ind tab @ '']'') @ ?sfx)"
          unfolding data stringify_pair JArr True by simp
        fix rest
        show "parse_json Value ((CHR ''['' # newline # replicate ind tab @ '']'') @ rest)
                = Some (erase data, rest)"
          using parse_value_empty(1) [of ind rest] by (simp add: data JArr True)
      qed
    next
      case False
      have "\<forall>x \<in> set vs. \<forall>l. reads_back x l (Suc ind)"
      proof (intro ballI allI)
        fix x l assume x: "x \<in> set vs"
        then have "size x < size data" using size_member [OF x] by (simp add: data JArr)
        moreover have "clean_jsonc x" using cl x by (simp add: list_all_iff)
        ultimately show "reads_back x l (Suc ind)" by (rule less.IH)
      qed
      from elements_read_back [OF False this] obtain body where
        body: "concat_results
                 (map (\<lambda>(x, l). case stringifyJsonc x l (Suc ind) of
                                   Inl e \<Rightarrow> Inl e
                                 | Inr s \<Rightarrow> Inr (replicate (Suc ind) tab @ s)) (flagged vs)) = Inr body"
        and rd: "\<And>k rest. parse_json Elements (body @ replicate k tab @ CHR '']'' # rest)
                   = Some (JArr (map erase vs), rest)"
        by blast
      show ?thesis
      proof (rule goal [of "CHR ''['' # newline # body @ replicate ind tab @ '']''"])
        show "stringifyJsonc data b ind
                = Inr ((CHR ''['' # newline # body @ replicate ind tab @ '']'') @ ?sfx)"
          unfolding data stringify_pair JArr using body by simp
        fix rest
        show "parse_json Value ((CHR ''['' # newline # body @ replicate ind tab @ '']'') @ rest)
                = Some (erase data, rest)"
          using parse_value_array [OF rd [of ind rest]] by (simp add: data JArr)
      qed
    qed
  next
    case (JObj kvs)
    with v have cl: "list_all (\<lambda>kv. list_all plain_char (fst kv) \<and> clean_jsonc (snd kv)) kvs"
      by simp
    show ?thesis
    proof (cases "kvs = []")
      case True
      show ?thesis
      proof (rule goal [of "CHR ''{'' # newline # replicate ind tab @ ''}''"])
        show "stringifyJsonc data b ind = Inr ((CHR ''{'' # newline # replicate ind tab @ ''}'') @ ?sfx)"
          unfolding data stringify_pair JObj True by simp
        fix rest
        show "parse_json Value ((CHR ''{'' # newline # replicate ind tab @ ''}'') @ rest)
                = Some (erase data, rest)"
          using parse_value_empty(2) [of ind rest] by (simp add: data JObj True)
      qed
    next
      case False
      have "\<forall>kv \<in> set kvs. list_all plain_char (fst kv) \<and> (\<forall>l. reads_back (snd kv) l (Suc ind))"
      proof (intro ballI conjI allI)
        fix kv assume kv: "kv \<in> set kvs"
        then show "list_all plain_char (fst kv)" using cl by (simp add: list_all_iff)
        fix l
        have "size (snd kv) < size data" using size_entry [OF kv] by (simp add: data JObj)
        moreover have "clean_jsonc (snd kv)" using cl kv by (simp add: list_all_iff)
        ultimately show "reads_back (snd kv) l (Suc ind)" by (rule less.IH)
      qed
      from members_read_back [OF False this] obtain body where
        body: "concat_results
                 (map (\<lambda>(kx, l). case stringifyJsonc (snd kx) l (Suc ind) of
                                    Inl e \<Rightarrow> Inl e
                                  | Inr s \<Rightarrow>
                                      Inr (replicate (Suc ind) tab @ dquote # fst kx @ dquote # '': '' @ s))
                      (flagged kvs)) = Inr body"
        and rd: "\<And>k rest. parse_json Members (body @ replicate k tab @ CHR ''}'' # rest)
                   = Some (JObj (map (\<lambda>kv. (fst kv, erase (snd kv))) kvs), rest)"
        by blast
      show ?thesis
      proof (rule goal [of "CHR ''{'' # newline # body @ replicate ind tab @ ''}''"])
        show "stringifyJsonc data b ind
                = Inr ((CHR ''{'' # newline # body @ replicate ind tab @ ''}'') @ ?sfx)"
          unfolding data stringify_pair JObj using body by simp
        fix rest
        show "parse_json Value ((CHR ''{'' # newline # body @ replicate ind tab @ ''}'') @ rest)
                = Some (erase data, rest)"
          using parse_value_object [OF rd [of ind rest]] by (simp add: data JObj)
      qed
    qed
  qed
qed

lemma collapse_no_newline: "newline \<notin> set (collapse_linebreaks s)"
  by (induction s rule: collapse_linebreaks.induct) auto

lemma trim_subset: "set (trim s) \<subseteq> set s"
proof -
  have "set (dropWhile is_space (rev (dropWhile is_space s))) \<subseteq> set (rev (dropWhile is_space s))"
    by (auto dest: set_dropWhileD)
  also have "\<dots> \<subseteq> set s" by (auto dest: set_dropWhileD)
  finally show ?thesis by (simp add: trim_def)
qed

lemma builder_inspect_clean: "builder_inspect U v = Some s \<Longrightarrow> newline \<notin> set s"
  using trim_subset [of "collapse_linebreaks (U (JObj (defined_props (spread v))))"]
    collapse_no_newline [of "U (JObj (defined_props (spread v)))"]
  by (auto simp: builder_inspect_def split: if_splits)

lemma parseDescription_clean: "clean_comment (opt_js (map_option JStr (parseDescription U rule)))"
proof (cases "parseDescription U rule")
  case None
  then show ?thesis by (simp add: clean_comment_def)
next
  case (Some s)
  then have "\<exists>v. builder_inspect U v = Some s"
    by (cases rule) (auto simp: describe_variant_def Let_def split: if_splits simp del: rule_js.simps)
  then have "newline \<notin> set s" using builder_inspect_clean by blast
  with Some show ?thesis by (simp add: clean_comment_def)
qed

lemma clean_default_pair:
  "clean_default d \<Longrightarrow> clean_comment c \<Longrightarrow> clean_jsonc (JArr [d, c])"
  by (cases d) (simp_all add: clean_default_def)

lemma compiled_clean_all:
  "(clean_position rule \<longrightarrow> (\<forall>data. parseRuleToJsonc U rule = Inr data \<longrightarrow> clean_jsonc data))"
  "(clean_rule r \<longrightarrow> (\<forall>v c. jsonc_value U r = Inr v \<longrightarrow> clean_comment c \<longrightarrow> clean_jsonc (JArr [v, c])))"
  "(clean_schema kvs \<longrightarrow> (\<forall>out. jsonc_schema U kvs = Inr out \<longrightarrow>
       list_all (\<lambda>kv. list_all plain_char (fst kv) \<and> clean_jsonc (snd kv)) out))"
proof (induction U rule and U r and U kvs rule: parseRuleToJsonc_jsonc_value_jsonc_schema.induct)
  case (1 U r)
  then show ?case
    using parseDescription_clean [of U "Single r"] by (auto split: sum.splits)
next
  case (2 U)
  then show ?case
    using parseDescription_clean [of U "Variants []"] by simp
next
  case (3 U r rs)
  then show ?case
    using parseDescription_clean [of U "Variants (r # rs)"] by (auto split: sum.splits)
next
  case (4 U d)
  show ?case
    by (cases "usable_default d") (simp_all add: clean_default_pair del: clean_jsonc.simps, simp)
next
  case (5 U d vs)
  show ?case
    by (cases "usable_default d")
       (simp_all add: clean_default_pair del: clean_jsonc.simps,
        auto split: option.splits list.splits)
next
  case (6 U d vs i)
  show ?case
  proof (intro impI allI)
    fix v c
    assume cr: "clean_rule (NumberRule d vs i)" and jv: "jsonc_value U (NumberRule d vs i) = Inr v"
      and c: "clean_comment c"
    show "clean_jsonc (JArr [v, c])"
    proof (cases "usable_default d")
      case True
      with cr jv c show ?thesis by (simp add: clean_default_pair del: clean_jsonc.simps)
    next
      case False
      define x where "x = (case vs of None \<Rightarrow> None | Some [] \<Rightarrow> None | Some (x # _) \<Rightarrow> Some x)"
      have v: "v = (if isFinite x then JNum (the x) else JNum (JInt 0))"
        using False jv by (auto simp: x_def Let_def)
      show ?thesis
      proof (cases "isFinite x")
        case True
        then obtain k where k: "x = Some k" by (cases x) simp_all
        with True cr False have "clean_number k"
          by (auto simp: x_def split: option.splits list.splits)
        with v True c k show ?thesis by simp
      next
        case False
        with v c show ?thesis by (simp add: max_safe_integer_def)
      qed
    qed
  qed
next
  case (7 U d s n l)
  show ?case
  proof (intro impI allI)
    fix v c
    assume cr: "clean_rule (ArrayRule d s n l)" and jv: "jsonc_value U (ArrayRule d s n l) = Inr v"
      and c: "clean_comment c"
    show "clean_jsonc (JArr [v, c])"
    proof (cases "usable_default d")
      case True
      with cr jv c show ?thesis by (simp add: clean_default_pair del: clean_jsonc.simps)
    next
      case nd: False
      show ?thesis
      proof (cases n)
        case None
        with nd jv c show ?thesis by auto
      next
        case (Some nested)
        show ?thesis
        proof (cases "primitive_nested (Some nested) \<or> (case nested of Variants _ \<Rightarrow> True | Single _ \<Rightarrow> False)")
          case False
          with nd jv c Some show ?thesis by auto
        next
          case True
          with nd jv Some obtain len elem where
            len: "array_ctor (case l of None \<Rightarrow> 1 | Some k \<Rightarrow> if k = 0 then 1 else k) = Inr len"
            and elem: "parseRuleToJsonc U nested = Inr elem" and v: "v = JArr (replicate len elem)"
            by (auto split: sum.splits)
          from cr nd Some have "clean_position nested" by simp
          with "7.IH" [OF nd Some True len] elem have "clean_jsonc elem" by simp
          then have "list_all clean_jsonc (replicate len elem)"
            by (simp add: list_all_iff)
          with v c show ?thesis by simp
        qed
      qed
    qed
  qed
next
  case (8 U d s n)
  show ?case
  proof (intro impI allI)
    fix v c
    assume cr: "clean_rule (ObjectRule d s n)" and jv: "jsonc_value U (ObjectRule d s n) = Inr v"
      and c: "clean_comment c"
    show "clean_jsonc (JArr [v, c])"
    proof (cases "usable_default d")
      case True
      with cr jv c show ?thesis by (simp add: clean_default_pair del: clean_jsonc.simps)
    next
      case nd: False
      show ?thesis
      proof (cases s)
        case None
        with nd jv c show ?thesis by auto
      next
        case (Some kvs)
        with nd jv obtain out where out: "jsonc_schema U kvs = Inr out" and v: "v = JObj out"
          by (auto split: sum.splits)
        from cr nd Some have "clean_schema kvs" by simp
        with "8.IH" [OF nd Some] out
        have "list_all (\<lambda>kv. list_all plain_char (fst kv) \<and> clean_jsonc (snd kv)) out" by simp
        with v c show ?thesis by simp
      qed
    qed
  qed
next
  case (9 U t d)
  show ?case
    by (cases "usable_default d")
       (simp_all add: clean_default_pair del: clean_jsonc.simps, auto simp: max_safe_integer_def)
next
  case (10 U)
  then show ?case by simp
next
  case (11 U kv kvs)
  show ?case
  proof (intro impI allI)
    fix out
    assume cs: "clean_schema (kv # kvs)" and js: "jsonc_schema U (kv # kvs) = Inr out"
    from js obtain v rest where v: "parseRuleToJsonc U (snd kv) = Inr v"
      and rest: "jsonc_schema U kvs = Inr rest" and out: "out = (fst kv, v) # rest"
      by (auto split: sum.splits)
    from cs "11.IH"(1) v have "clean_jsonc v" by simp
    moreover from cs "11.IH"(2) [OF v] rest
    have "list_all (\<lambda>kv. list_all plain_char (fst kv) \<and> clean_jsonc (snd kv)) rest" by simp
    ultimately show "list_all (\<lambda>kv. list_all plain_char (fst kv) \<and> clean_jsonc (snd kv)) out"
      using cs out by simp
  qed
qed

lemma stringify_single:
  "stringifyJsonc (JArr [v]) b ind = stringifyJsonc (JArr [v, JUndefined]) b ind"
  using stringifyJsonc.simps [of "JArr [v]" b ind]
    stringifyJsonc.simps [of "JArr [v, JUndefined]" b ind]
  by (simp del: stringifyJsonc.simps)

lemma clean_roundtrip:
  assumes "clean_jsonc data"
  shows "\<exists>t. stringifyJsonc data True 0 = Inr t \<and> parse_jsonc t = Some (erase data)"
proof -
  from reads_back_clean [OF assms, of True 0] obtain vt c where c: "clean_comment c"
    and s: "stringifyJsonc data True 0 = Inr (vt @ comment_only c)"
    and p: "\<And>rest. no_number_ahead rest \<Longrightarrow> parse_json Value (vt @ rest) = Some (erase data, rest)"
    by (auto simp: reads_back_def)
  have "parse_json Value (vt @ comment_only c) = Some (erase data, comment_only c)"
    using p [OF comment_only_no_number [of c "[]"]] by simp
  moreover have "skip_ws False (comment_only c) = []"
    using skip_ws_comment_only [OF c, of "[]"] by simp
  ultimately have "parse_jsonc (vt @ comment_only c) = Some (erase data)"
    by (simp add: parse_jsonc_def)
  with s show ?thesis by blast
qed

section \<open>Properties of the serializer: the round trip\<close>

text \<open>The numbers that the reader accepts, and a body with a field of the name \<^verbatim>\<open>__proto__\<close>.\<close>

lemma parse_number_examples:
  "parse_jsonc ''0.5'' = Some (JNum (JDouble ''0.5''))"
  "parse_jsonc ''1e+21'' = Some (JNum (JDouble ''1e+21''))"
  "parse_jsonc ''-12'' = Some (JNum (JInt (- 12)))"
  "parse_jsonc ''-0'' = Some (JNum JNegZero)"
  "parse_jsonc ''18446744073709552000'' = Some (JNum (JDouble ''18446744073709552000''))"
  "parse_jsonc ''012'' = None"
  "parse_jsonc ''1.'' = None"
  "parse_jsonc ''1e'' = None"
  "parse_jsonc ''-'' = None"
  unfolding parse_jsonc_def
  by (subst parse_json.simps,
      simp add: is_ws_def parse_scalar_def parse_number_def number_char_def
        is_digit_def number_text_def fraction_text_def exponent_text_def number_value_def
        parse_integer_def parse_nat_def digit_value_def max_safe_integer_def Let_def)+

lemma proto_field_dropped:
  "builder_parseBody U (Some [(''__proto__'', Single (BooleanRule JUndefined)),
                              (''a'', Single (BooleanRule JUndefined))]) (Some ''json'')
     = builder_parseBody U (Some [(''a'', Single (BooleanRule JUndefined))]) (Some ''json'')"
  by (simp add: builder_parseBody_def object_assign_def del: stringifyJsonc.simps)

text \<open>
  C8 (as stated, it fails).  A string rule whose default is a double quote compiles to
  that string; the serializer writes it between two double quotes without escaping
  it, and the text it returns is not JSON: the reader finds the empty string followed
  by a stray double quote.  The default \<^verbatim>\<open>NaN\<close> is written as \<^verbatim>\<open>NaN\<close>, which is not
  JSON, and negative zero as \<^verbatim>\<open>0\<close>, which is read as the positive zero.  The members
  of the default \<^verbatim>\<open>{a: 1}\<close> are read as pairs of a value and a description: the number
  1 has neither, and nothing is written after the key.
\<close>

theorem roundtrip_counterexample:
  "parseRuleToJsonc sample_inspect (Variants [StringRule (JStr [dquote]) None])
     = Inr (JArr [JStr [dquote], JUndefined])
   \<and> stringifyJsonc (JArr [JStr [dquote], JUndefined]) True 0
     = Inr [dquote, dquote, dquote, newline]
   \<and> parse_jsonc [dquote, dquote, dquote, newline] = None
   \<and> parse_jsonc [dquote, dquote, dquote, newline] \<noteq> Some (erase (JArr [JStr [dquote], JUndefined]))
   \<and> parseRuleToJsonc sample_inspect (Variants [NumberRule (JNum JNaN) None None])
     = Inr (JArr [JNum JNaN, JUndefined])
   \<and> stringifyJsonc (JArr [JNum JNaN, JUndefined]) True 0 = Inr (''NaN'' @ [newline])
   \<and> parse_jsonc (''NaN'' @ [newline]) = None
   \<and> parseRuleToJsonc sample_inspect (Variants [NumberRule (JNum JNegZero) None None])
     = Inr (JArr [JNum JNegZero, JUndefined])
   \<and> stringifyJsonc (JArr [JNum JNegZero, JUndefined]) True 0 = Inr (''0'' @ [newline])
   \<and> parse_jsonc (''0'' @ [newline]) = Some (JNum (JInt 0))
   \<and> parseRuleToJsonc sample_inspect (Variants [StringRule (JObj [(''a'', JNum (JInt 1))]) None])
     = Inr (JArr [JObj [(''a'', JNum (JInt 1))], JUndefined])
   \<and> stringifyJsonc (JArr [JObj [(''a'', JNum (JInt 1))], JUndefined]) True 0
     = Inr (''{'' @ [newline, tab, dquote] @ ''a'' @ [dquote] @ '': }'' @ [newline])
   \<and> parse_jsonc (''{'' @ [newline, tab, dquote] @ ''a'' @ [dquote] @ '': }'' @ [newline]) = None"
proof -
  have "parse_json Value [dquote, dquote, dquote, newline] = Some (JStr [], [dquote, newline])"
    by (subst parse_json.simps) (simp add: is_ws_def)
  then have q: "parse_jsonc [dquote, dquote, dquote, newline] = None"
    by (simp add: parse_jsonc_def is_ws_def)
  have "parse_json Value (''NaN'' @ [newline]) = None"
    by (subst parse_json.simps)
       (simp add: is_ws_def parse_scalar_def parse_number_def number_char_def is_digit_def
          number_text_def)
  then have n: "parse_jsonc (''NaN'' @ [newline]) = None"
    by (simp add: parse_jsonc_def)
  have "parse_json Value (''0'' @ [newline]) = Some (JNum (JInt 0), [newline])"
    by (subst parse_json.simps)
       (simp add: is_ws_def parse_scalar_def parse_number_def number_char_def is_digit_def
          number_text_def fraction_text_def number_value_def parse_integer_def parse_nat_def
          digit_value_def max_safe_integer_def Let_def)
  then have z: "parse_jsonc (''0'' @ [newline]) = Some (JNum (JInt 0))"
    by (simp add: parse_jsonc_def is_ws_def)
  have v: "parse_json Value ('' }'' @ [newline]) = None"
    by (subst parse_json.simps)
       (simp add: is_ws_def parse_scalar_def parse_number_def number_char_def is_digit_def
          number_text_def)
  have m: "parse_json Members ([newline, tab, dquote] @ ''a'' @ [dquote] @ '': }'' @ [newline]) = None"
    by (subst parse_json.simps) (use v in \<open>simp add: is_ws_def plain_char_def\<close>)
  have "parse_json Value (''{'' @ [newline, tab, dquote] @ ''a'' @ [dquote] @ '': }'' @ [newline]) = None"
    by (subst parse_json.simps) (use m in \<open>simp add: is_ws_def\<close>)
  then have o: "parse_jsonc (''{'' @ [newline, tab, dquote] @ ''a'' @ [dquote] @ '': }'' @ [newline]) = None"
    by (simp add: parse_jsonc_def)
  from q n z o show ?thesis
    by (simp add: usable_default_def map_filter_def describe_variant_def)
qed

lemma object_assign_all:
  "list_all Q p \<Longrightarrow> Q (n, v) \<Longrightarrow> list_all Q (object_assign p n v)"
  by (auto simp: object_assign_def list_all_iff)

lemma body_members_clean:
  assumes "list_all (\<lambda>kv. list_all plain_char (fst kv) \<and> clean_jsonc (snd kv)) p"
    and "clean_schema body" and "body_members U body p = Inr out"
  shows "list_all (\<lambda>kv. list_all plain_char (fst kv) \<and> clean_jsonc (snd kv)) out"
  using assms
proof (induction body arbitrary: p)
  case Nil
  then show ?case by simp
next
  case (Cons kv kvs)
  from Cons.prems(3) obtain v where v: "parseRuleToJsonc U (snd kv) = Inr v"
    and rest: "body_members U kvs (object_assign p (fst kv) v) = Inr out"
    by (auto split: sum.splits)
  from Cons.prems(2) have k: "list_all plain_char (fst kv)" and r: "clean_position (snd kv)"
    and kvs: "clean_schema kvs" by simp_all
  from compiled_clean_all(1) [of "snd kv" U] r v have "clean_jsonc v" by simp
  with k have "list_all (\<lambda>kv. list_all plain_char (fst kv) \<and> clean_jsonc (snd kv))
                 (object_assign p (fst kv) v)"
    using object_assign_all [OF Cons.prems(1)] by simp
  from Cons.IH [OF this kvs rest] show ?case .
qed

lemma body_members_schema:
  assumes "distinct (map fst body)" and "set (map fst body) \<inter> set (map fst p) = {}"
  shows "body_members U body p =
           (case jsonc_schema U body of
              Inl e \<Rightarrow> Inl e
            | Inr members \<Rightarrow> Inr (p @ filter (\<lambda>kv. fst kv \<noteq> ''__proto__'') members))"
  using assms
proof (induction body arbitrary: p)
  case Nil
  then show ?case by simp
next
  case (Cons kv kvs)
  show ?case
  proof (cases "parseRuleToJsonc U (snd kv)")
    case (Inl e)
    then show ?thesis by simp
  next
    case (Inr v)
    from Cons.prems have fresh: "fst kv \<notin> set (map fst p)" by auto
    have d: "distinct (map fst kvs)" using Cons.prems(1) by simp
    show ?thesis
    proof (cases "fst kv = ''__proto__''")
      case True
      have a: "object_assign p ''__proto__'' v = p" by (simp add: object_assign_def)
      have i: "set (map fst kvs) \<inter> set (map fst p) = {}" using Cons.prems by auto
      show ?thesis
        using Inr True Cons.IH [OF d i] by (simp add: a split: sum.splits)
    next
      case False
      then have a: "object_assign p (fst kv) v = p @ [(fst kv, v)]"
        using fresh by (simp add: object_assign_def)
      have i: "set (map fst kvs) \<inter> set (map fst (p @ [(fst kv, v)])) = {}"
        using Cons.prems by auto
      show ?thesis
        using Inr False Cons.IH [OF d i] by (simp add: a split: sum.splits)
    qed
  qed
qed

text \<open>
  C8 (amended).  For every clean rule that compiles, the compiled value is a clean
  pair, the serializer renders it, and reading the text back as JSON with line
  comments gives the compiled value without its descriptions.  The same holds for the
  body of an endpoint, which the builder serializes as the mapping \<open>out\<close> that its
  \<^verbatim>\<open>reduce\<close> builds: when the keys of the schema are distinct, as the keys of an
  object are, the compiled fields in the order of the schema, without the field of
  the name \<^verbatim>\<open>__proto__\<close>.
\<close>

theorem compiled_roundtrip:
  "(clean_position rule \<and> parseRuleToJsonc U rule = Inr data \<longrightarrow>
      clean_jsonc data
      \<and> (\<exists>t. stringifyJsonc data True 0 = Inr t \<and> parse_jsonc t = Some (erase data)))
   \<and> (clean_schema body \<and> body_members U body [] = Inr out \<longrightarrow>
      (\<exists>t. builder_parseBody U (Some body) (Some ''json'') = Inr (BodyString t)
         \<and> parse_jsonc t = Some (JObj (map (\<lambda>kv. (fst kv, erase (snd kv))) out))))
   \<and> (distinct (map fst body) \<longrightarrow>
      body_members U body [] =
        (case jsonc_schema U body of
           Inl e \<Rightarrow> Inl e
         | Inr members \<Rightarrow> Inr (filter (\<lambda>kv. fst kv \<noteq> ''__proto__'') members)))"
proof (intro conjI impI)
  assume a: "clean_position rule \<and> parseRuleToJsonc U rule = Inr data"
  with compiled_clean_all(1) [of rule U] show "clean_jsonc data" by simp
  then show "\<exists>t. stringifyJsonc data True 0 = Inr t \<and> parse_jsonc t = Some (erase data)"
    by (rule clean_roundtrip)
next
  assume a: "clean_schema body \<and> body_members U body [] = Inr out"
  with body_members_clean [of "[]" body U out]
  have "list_all (\<lambda>kv. list_all plain_char (fst kv) \<and> clean_jsonc (snd kv)) out" by simp
  then have "clean_jsonc (JArr [JObj out, JUndefined])" by (simp add: clean_comment_def)
  from clean_roundtrip [OF this] obtain t where
    t: "stringifyJsonc (JArr [JObj out, JUndefined]) True 0 = Inr t"
    and p: "parse_jsonc t = Some (erase (JArr [JObj out, JUndefined]))" by blast
  from t have "stringifyJsonc (JArr [JObj out]) True 0 = Inr t"
    by (simp only: stringify_single)
  with a have "builder_parseBody U (Some body) (Some ''json'') = Inr (BodyString t)"
    by (simp add: builder_parseBody_def del: stringifyJsonc.simps)
  with p show "\<exists>t. builder_parseBody U (Some body) (Some ''json'') = Inr (BodyString t)
         \<and> parse_jsonc t = Some (JObj (map (\<lambda>kv. (fst kv, erase (snd kv))) out))"
    by simp
next
  assume "distinct (map fst body)"
  from body_members_schema [OF this, of "[]" U]
  show "body_members U body [] =
        (case jsonc_schema U body of
           Inl e \<Rightarrow> Inl e
         | Inr members \<Rightarrow> Inr (filter (\<lambda>kv. fst kv \<noteq> ''__proto__'') members))"
    by (simp split: sum.splits)
qed

theorem compiled_roundtrip_witness:
  "clean_position person_rule
   \<and> (\<exists>data. parseRuleToJsonc sample_inspect person_rule = Inr data
        \<and> erase data = JObj [(''name'', JStr ''bob''), (''age'', JNum (JInt 42)),
                             (''tags'', JArr [JBool False, JBool False])]
        \<and> clean_jsonc data
        \<and> (\<exists>t. stringifyJsonc data True 0 = Inr t \<and> parse_jsonc t = Some (erase data)))
   \<and> clean_schema person_schema
   \<and> distinct (map fst person_schema)
   \<and> (\<exists>t. builder_parseBody sample_inspect (Some person_schema) (Some ''json'') = Inr (BodyString t)
        \<and> parse_jsonc t = Some (JObj [(''name'', JStr ''bob''), (''age'', JNum (JInt 42)),
                                        (''tags'', JArr [JBool False, JBool False])]))
   \<and> parseRuleToJsonc sample_inspect (Variants [NumberRule (JNum (JDouble ''1e+21'')) None None])
       = Inr (JArr [JNum (JDouble ''1e+21''), JUndefined])
   \<and> (\<exists>t. stringifyJsonc (JArr [JNum (JDouble ''1e+21''), JUndefined]) True 0 = Inr t
        \<and> parse_jsonc t = Some (JNum (JDouble ''1e+21'')))"
proof -
  have big: "clean_position (Variants [NumberRule (JNum (JDouble ''1e+21'')) None None])"
    by (simp add: usable_default_def clean_default_def number_text_def fraction_text_def
          exponent_text_def number_value_def parse_integer_def parse_nat_def is_digit_def
          Let_def)
  have bigc: "parseRuleToJsonc sample_inspect (Variants [NumberRule (JNum (JDouble ''1e+21'')) None None])
       = Inr (JArr [JNum (JDouble ''1e+21''), JUndefined])"
    by (simp add: usable_default_def map_filter_def describe_variant_def)
  from compiled_roundtrip
         [of "Variants [NumberRule (JNum (JDouble ''1e+21'')) None None]" sample_inspect
             "JArr [JNum (JDouble ''1e+21''), JUndefined]"] big bigc
  have t3: "\<exists>t. stringifyJsonc (JArr [JNum (JDouble ''1e+21''), JUndefined]) True 0 = Inr t
        \<and> parse_jsonc t = Some (JNum (JDouble ''1e+21''))"
    by simp
  have cs: "clean_schema person_schema"
    by (simp add: person_schema_def usable_default_def clean_default_def plain_char_def
          max_safe_integer_def)
  then have c: "clean_position person_rule"
    by (simp add: person_rule_def usable_default_def)
  have ds: "distinct (map fst person_schema)"
    by (simp add: person_schema_def)
  have "\<exists>out. jsonc_schema sample_inspect person_schema = Inr out
        \<and> map (\<lambda>kv. (fst kv, erase (snd kv))) out
            = [(''name'', JStr ''bob''), (''age'', JNum (JInt 42)),
               (''tags'', JArr [JBool False, JBool False])]
        \<and> filter (\<lambda>kv. fst kv \<noteq> ''__proto__'') out = out"
    by (simp add: person_schema_def usable_default_def array_ctor_def numeral_2_eq_2)
  then obtain out where o: "jsonc_schema sample_inspect person_schema = Inr out"
    and eo: "map (\<lambda>kv. (fst kv, erase (snd kv))) out
            = [(''name'', JStr ''bob''), (''age'', JNum (JInt 42)),
               (''tags'', JArr [JBool False, JBool False])]"
    and fo: "filter (\<lambda>kv. fst kv \<noteq> ''__proto__'') out = out"
    by (elim exE conjE) (rule that)
  have v: "jsonc_value sample_inspect (ObjectRule JUndefined (Some person_schema) None) = Inr (JObj out)"
    using o by (simp add: usable_default_def)
  have "\<exists>data. parseRuleToJsonc sample_inspect person_rule = Inr data
     \<and> erase data = JObj (map (\<lambda>kv. (fst kv, erase (snd kv))) out)"
    unfolding person_rule_def parseRuleToJsonc.simps v by simp
  then obtain data where d: "parseRuleToJsonc sample_inspect person_rule = Inr data"
    and e: "erase data = JObj (map (\<lambda>kv. (fst kv, erase (snd kv))) out)"
    by blast
  note rt = compiled_roundtrip [of person_rule sample_inspect data person_schema out]
  from rt c d have cd: "clean_jsonc data"
    and t1: "\<exists>t. stringifyJsonc data True 0 = Inr t \<and> parse_jsonc t = Some (erase data)"
    by blast+
  from rt ds have "body_members sample_inspect person_schema [] =
        (case jsonc_schema sample_inspect person_schema of
           Inl e \<Rightarrow> Inl e
         | Inr members \<Rightarrow> Inr (filter (\<lambda>kv. fst kv \<noteq> ''__proto__'') members))"
    by blast
  then have bm: "body_members sample_inspect person_schema [] = Inr out"
    unfolding o using fo by simp
  from rt cs bm
  have "\<exists>t. builder_parseBody sample_inspect (Some person_schema) (Some ''json'') = Inr (BodyString t)
         \<and> parse_jsonc t = Some (JObj (map (\<lambda>kv. (fst kv, erase (snd kv))) out))"
    by blast
  then have t2: "\<exists>t. builder_parseBody sample_inspect (Some person_schema) (Some ''json'') = Inr (BodyString t)
         \<and> parse_jsonc t = Some (JObj [(''name'', JStr ''bob''), (''age'', JNum (JInt 42)),
                                        (''tags'', JArr [JBool False, JBool False])])"
    unfolding eo .
  have e': "erase data = JObj [(''name'', JStr ''bob''), (''age'', JNum (JInt 42)),
                             (''tags'', JArr [JBool False, JBool False])]"
    using e unfolding eo .
  have "\<exists>data. parseRuleToJsonc sample_inspect person_rule = Inr data
        \<and> erase data = JObj [(''name'', JStr ''bob''), (''age'', JNum (JInt 42)),
                             (''tags'', JArr [JBool False, JBool False])]
        \<and> clean_jsonc data
        \<and> (\<exists>t. stringifyJsonc data True 0 = Inr t \<and> parse_jsonc t = Some (erase data))"
    using d e' cd t1 by (intro exI [of _ data] conjI)
  with c cs ds t2 bigc t3 show ?thesis by (intro conjI)
qed

end
